theory Spec2Isabelle
  imports Complex_Main "HOL-Library.Word"
begin

unbundle bit_operations_syntax

section \<open>Values, errors and typed arrays\<close>

text \<open>
  The raster pipeline of \<^verbatim>\<open>supabase/functions/fetch-satellite/index.ts\<close>.
  A \<^verbatim>\<open>Uint8Array\<close> is a list of bytes. Integral JavaScript numbers (sizes, offsets,
  counters) are \<open>int\<close> or \<open>nat\<close>; every exception the code can raise is a value of
  \<open>error\<close>, and a function that can raise returns \<open>error + 'a\<close>.
\<close>

type_synonym u8 = "8 word"

datatype error =
    RangeError            \<comment> \<open>typed-array length or \<^verbatim>\<open>DataView\<close> offset out of range\<close>
  | TypeError             \<comment> \<open>spreading \<^verbatim>\<open>undefined\<close>\<close>
  | BufferTooSmall        \<comment> \<open>\<^verbatim>\<open>Error('Buffer too small for TIFF')\<close>\<close>
  | InvalidTiffHeader     \<comment> \<open>\<^verbatim>\<open>Error('Invalid TIFF header')\<close>\<close>
  | InvalidIfdOffset      \<comment> \<open>\<^verbatim>\<open>Error('Invalid IFD offset')\<close>\<close>

definition ebind :: "error + 'a \<Rightarrow> ('a \<Rightarrow> error + 'b) \<Rightarrow> error + 'b" where
  "ebind m f = (case m of Inl e \<Rightarrow> Inl e | Inr v \<Rightarrow> f v)"

text \<open>
  Reading a typed array out of range gives \<^verbatim>\<open>undefined\<close> (\<open>None\<close>); storing
  \<^verbatim>\<open>undefined\<close> into a \<^verbatim>\<open>Uint8Array\<close>, or using it in a bitwise operation, makes it 0.
  Writing a typed array out of range is ignored, which is what \<open>xs[i := v]\<close> does.
\<close>

definition typed_get :: "'a list \<Rightarrow> nat \<Rightarrow> 'a option" where
  "typed_get xs i = (if i < length xs then Some (xs ! i) else None)"

definition undef0 :: "u8 option \<Rightarrow> u8" where
  "undef0 v = (case v of None \<Rightarrow> 0 | Some b \<Rightarrow> b)"

subsection \<open>DataView writes\<close>

definition bytes16 :: "16 word \<Rightarrow> bool \<Rightarrow> u8 list" where
  "bytes16 v littleEndian =
     (let bs = [ucast v, ucast (drop_bit 8 v)] in if littleEndian then bs else rev bs)"

definition bytes32 :: "32 word \<Rightarrow> bool \<Rightarrow> u8 list" where
  "bytes32 v littleEndian =
     (let bs = [ucast v, ucast (drop_bit 8 v), ucast (drop_bit 16 v), ucast (drop_bit 24 v)]
      in if littleEndian then bs else rev bs)"

fun store :: "u8 list \<Rightarrow> nat \<Rightarrow> u8 list \<Rightarrow> u8 list" where
  "store buf off [] = buf"
| "store buf off (b # bs) = store (buf[off := b]) (Suc off) bs"

text \<open>\<^verbatim>\<open>setUint32\<close> and \<^verbatim>\<open>setInt32\<close> store the value modulo \<open>2^32\<close>; an offset whose
  field does not fit in the buffer raises \<^verbatim>\<open>RangeError\<close>.\<close>

definition setUint16 :: "u8 list \<Rightarrow> nat \<Rightarrow> int \<Rightarrow> bool \<Rightarrow> error + u8 list" where
  "setUint16 buf off v littleEndian =
     (if off + 2 > length buf then Inl RangeError
      else Inr (store buf off (bytes16 (word_of_int v) littleEndian)))"

definition setUint32 :: "u8 list \<Rightarrow> nat \<Rightarrow> int \<Rightarrow> bool \<Rightarrow> error + u8 list" where
  "setUint32 buf off v littleEndian =
     (if off + 4 > length buf then Inl RangeError
      else Inr (store buf off (bytes32 (word_of_int v) littleEndian)))"

definition setInt32 :: "u8 list \<Rightarrow> nat \<Rightarrow> int \<Rightarrow> bool \<Rightarrow> error + u8 list" where
  "setInt32 buf off v littleEndian =
     (if off + 4 > length buf then Inl RangeError
      else Inr (store buf off (bytes32 (word_of_int v) littleEndian)))"

subsection \<open>DataView reads\<close>

definition word16_at :: "u8 list \<Rightarrow> nat \<Rightarrow> bool \<Rightarrow> 16 word" where
  "word16_at buf off littleEndian =
     (let b0 = ucast (buf ! off) :: 16 word; b1 = ucast (buf ! (off + 1)) :: 16 word
      in if littleEndian then b0 OR push_bit 8 b1 else b1 OR push_bit 8 b0)"

definition word32_at :: "u8 list \<Rightarrow> nat \<Rightarrow> bool \<Rightarrow> 32 word" where
  "word32_at buf off littleEndian =
     (let b0 = ucast (buf ! off) :: 32 word; b1 = ucast (buf ! (off + 1)) :: 32 word;
          b2 = ucast (buf ! (off + 2)) :: 32 word; b3 = ucast (buf ! (off + 3)) :: 32 word
      in if littleEndian
         then b0 OR push_bit 8 b1 OR push_bit 16 b2 OR push_bit 24 b3
         else b3 OR push_bit 8 b2 OR push_bit 16 b1 OR push_bit 24 b0)"

definition getUint8 :: "u8 list \<Rightarrow> nat \<Rightarrow> error + nat" where
  "getUint8 buf off = (if off + 1 > length buf then Inl RangeError else Inr (unat (buf ! off)))"

definition getUint16 :: "u8 list \<Rightarrow> nat \<Rightarrow> bool \<Rightarrow> error + nat" where
  "getUint16 buf off littleEndian =
     (if off + 2 > length buf then Inl RangeError
      else Inr (unat (word16_at buf off littleEndian)))"

definition getInt16 :: "u8 list \<Rightarrow> nat \<Rightarrow> bool \<Rightarrow> error + int" where
  "getInt16 buf off littleEndian =
     (if off + 2 > length buf then Inl RangeError
      else Inr (sint (word16_at buf off littleEndian)))"

definition getUint32 :: "u8 list \<Rightarrow> nat \<Rightarrow> bool \<Rightarrow> error + nat" where
  "getUint32 buf off littleEndian =
     (if off + 4 > length buf then Inl RangeError
      else Inr (unat (word32_at buf off littleEndian)))"

section \<open>RasterEncoder: \<^verbatim>\<open>createBMP\<close>\<close>

text \<open>
  One pixel of the inner loop: four stores through the running \<^verbatim>\<open>offset\<close>, reading the
  source pixel at \<^verbatim>\<open>srcIdx = (y * width + x) * 4\<close> in the order blue, green, red, alpha.
\<close>

definition bmp_pixel :: "u8 list \<Rightarrow> int \<Rightarrow> nat \<Rightarrow> nat \<Rightarrow> u8 list \<times> nat \<Rightarrow> u8 list \<times> nat" where
  "bmp_pixel rgba width y x st =
     (let (bmp, offset) = st;
          srcIdx = (y * nat width + x) * 4;
          bmp = bmp[offset := undef0 (typed_get rgba (srcIdx + 2))];
          bmp = bmp[offset + 1 := undef0 (typed_get rgba (srcIdx + 1))];
          bmp = bmp[offset + 2 := undef0 (typed_get rgba srcIdx)];
          bmp = bmp[offset + 3 := undef0 (typed_get rgba (srcIdx + 3))]
      in (bmp, offset + 4))"

definition bmp_row :: "u8 list \<Rightarrow> int \<Rightarrow> nat \<Rightarrow> u8 list \<times> nat \<Rightarrow> u8 list \<times> nat" where
  "bmp_row rgba width y st = fold (bmp_pixel rgba width y) [0..<nat width] st"

definition bmp_pixels :: "u8 list \<Rightarrow> int \<Rightarrow> int \<Rightarrow> u8 list \<Rightarrow> u8 list" where
  "bmp_pixels rgba width height bmp =
     fst (fold (bmp_row rgba width) [0..<nat height] (bmp, 54))"

definition createBMP :: "u8 list \<Rightarrow> int \<Rightarrow> int \<Rightarrow> error + u8 list" where
  "createBMP rgba width height =
     (let rowSize = \<lceil>real_of_int (width * 4) / 4\<rceil> * 4;
          imageSize = rowSize * height;
          fileSize = 54 + imageSize
      in if fileSize < 0 then Inl RangeError
         else
           let bmp = replicate (nat fileSize) (0 :: u8);
               bmp = bmp[0 := 0x42];
               bmp = bmp[1 := 0x4D]
           in ebind (setUint32 bmp 2 fileSize True) (\<lambda>bmp.
              ebind (setUint32 bmp 10 54 True) (\<lambda>bmp.
              ebind (setUint32 bmp 14 40 True) (\<lambda>bmp.
              ebind (setInt32 bmp 18 width True) (\<lambda>bmp.
              ebind (setInt32 bmp 22 (- height) True) (\<lambda>bmp.
              ebind (setUint16 bmp 26 1 True) (\<lambda>bmp.
              ebind (setUint16 bmp 28 32 True) (\<lambda>bmp.
              ebind (setUint32 bmp 30 0 True) (\<lambda>bmp.
              ebind (setUint32 bmp 34 imageSize True) (\<lambda>bmp.
              ebind (setUint32 bmp 38 2835 True) (\<lambda>bmp.
              ebind (setUint32 bmp 42 2835 True) (\<lambda>bmp.
              Inr (bmp_pixels rgba width height bmp)))))))))))))"

section \<open>IndexCalculator: \<^verbatim>\<open>generateNdviMask\<close>\<close>

text \<open>
  A JavaScript number that is not an integer count is a \<open>number\<close>: a real, or \<^verbatim>\<open>NaN\<close>.
  The rounding of floating-point arithmetic and of \<^verbatim>\<open>Float32Array\<close> stores is not
  modelled, and neither are the infinities: the rasters of this program hold 16-bit
  samples divided by 10000. A quotient by zero is \<open>NaN\<close> here (the program divides by
  zero only in \<^verbatim>\<open>0 / 0\<close>, for an image without pixels). \<^verbatim>\<open>undefined\<close>, which reading a
  \<^verbatim>\<open>Float32Array\<close> out of range returns, is \<open>NaN\<close> in arithmetic.
\<close>

datatype number = Num real | NaN




fun js_div :: "number \<Rightarrow> number \<Rightarrow> number" where
  "js_div (Num a) (Num b) = (if b = 0 then NaN else Num (a / b))"
| "js_div _ _ = NaN"

fun js_gt :: "number \<Rightarrow> number \<Rightarrow> bool" where
  "js_gt (Num a) (Num b) = (a > b)"
| "js_gt _ _ = False"

fun js_lt :: "number \<Rightarrow> number \<Rightarrow> bool" where
  "js_lt (Num a) (Num b) = (a < b)"
| "js_lt _ _ = False"

definition to_number :: "number option \<Rightarrow> number" where
  "to_number v = (case v of None \<Rightarrow> NaN | Some x \<Rightarrow> x)"



text \<open>The second loop: the colour of pixel \<open>i\<close>, four bytes at \<open>idx = i * 4\<close>.\<close>

definition put_rgba :: "u8 list \<Rightarrow> nat \<Rightarrow> u8 \<Rightarrow> u8 \<Rightarrow> u8 \<Rightarrow> u8 \<Rightarrow> u8 list" where
  "put_rgba rgba idx r g b a = rgba[idx := r, idx + 1 := g, idx + 2 := b, idx + 3 := a]"

definition classify_step :: "number list \<Rightarrow> nat \<Rightarrow> u8 list \<Rightarrow> u8 list" where
  "classify_step ndvi i rgba =
     (let idx = i * 4;
          val = to_number (typed_get ndvi i)
      in if js_gt val (Num 0.6) then put_rgba rgba idx 0 128 0 200
         else if js_gt val (Num 0.4) then put_rgba rgba idx 34 139 34 180
         else if js_gt val (Num 0.2) then put_rgba rgba idx 144 238 144 150
         else if js_gt val (Num 0) then put_rgba rgba idx 210 180 140 120
         else put_rgba rgba idx 65 105 225 (if js_lt val (Num (- 0.1)) then 150 else 50))"

definition classify_loop :: "number list \<Rightarrow> nat \<Rightarrow> u8 list" where
  "classify_loop ndvi n = fold (classify_step ndvi) [0..<n] (replicate (n * 4) 0)"



section \<open>LzwDecoder: \<^verbatim>\<open>decompressLZW\<close>\<close>

text \<open>
  The variables of the decoder. \<^verbatim>\<open>dictionary\<close> is a JavaScript array, which can have
  holes: an index that was never assigned reads as \<^verbatim>\<open>undefined\<close> (\<open>None\<close>).
  \<^verbatim>\<open>bitBuffer\<close> is only ever the result of a bitwise operation, a 32-bit integer.
\<close>

record lzw_state =
  lzw_output :: "u8 list"   \<comment> \<open>\<^verbatim>\<open>output\<close>\<close>
  dictionary :: "u8 list option list"
  nextCode :: nat
  codeSize :: nat
  bitBuffer :: "32 word"
  bitsInBuffer :: nat
  bytePos :: nat
  oldCode :: int

definition js_array_get :: "'a option list \<Rightarrow> int \<Rightarrow> 'a option" where
  "js_array_get xs i = (if 0 \<le> i \<and> nat i < length xs then xs ! nat i else None)"

definition js_array_set :: "'a option list \<Rightarrow> nat \<Rightarrow> 'a \<Rightarrow> 'a option list" where
  "js_array_set xs i v =
     (if i < length xs then xs[i := Some v]
      else xs @ replicate (i - length xs) None @ [Some v])"

definition js_set_length :: "'a option list \<Rightarrow> nat \<Rightarrow> 'a option list" where
  "js_set_length xs n = take n xs @ replicate (n - length xs) None"

definition init_dictionary :: "u8 list option list \<Rightarrow> u8 list option list" where
  "init_dictionary d = fold (\<lambda>i d. js_array_set d i [of_nat i]) [0..<256] d"

definition lzw_init :: "nat \<Rightarrow> lzw_state" where
  "lzw_init offset =
     \<lparr>lzw_output = [], dictionary = init_dictionary [], nextCode = 258, codeSize = 9,
      bitBuffer = 0, bitsInBuffer = 0, bytePos = offset, oldCode = - 1\<rparr>"

text \<open>
  \<^verbatim>\<open>readCode\<close>: the inner loop shifts bytes into the buffer while a code is not complete
  and input remains; a byte read beyond the array is \<^verbatim>\<open>undefined\<close>, 0 under \<^verbatim>\<open>|\<close>.
  Shift counts are taken modulo 32, and \<^verbatim>\<open>>>\<close> keeps the sign. The mask
  \<^verbatim>\<open>(1 << codeSize) - 1\<close> has bit 31 clear, so the code is not negative.
\<close>

function fill_bits :: "u8 list \<Rightarrow> nat \<Rightarrow> lzw_state \<Rightarrow> lzw_state" where
  "fill_bits input endPos st =
     (if bitsInBuffer st < codeSize st \<and> bytePos st < endPos
      then fill_bits input endPos
             (st\<lparr>bitBuffer := push_bit 8 (bitBuffer st) OR ucast (undef0 (typed_get input (bytePos st))),
                 bytePos := bytePos st + 1,
                 bitsInBuffer := bitsInBuffer st + 8\<rparr>)
      else st)"
  by pat_completeness auto
termination
  by (relation "measure (\<lambda>(input, endPos, st). endPos - bytePos st)") auto

definition readCode :: "u8 list \<Rightarrow> nat \<Rightarrow> lzw_state \<Rightarrow> nat \<times> lzw_state" where
  "readCode input endPos st0 =
     (let st = fill_bits input endPos st0
      in if bitsInBuffer st < codeSize st then (257, st)
         else
           let st = st\<lparr>bitsInBuffer := bitsInBuffer st - codeSize st\<rparr>
           in (unat (signed_drop_bit (bitsInBuffer st mod 32) (bitBuffer st)
                       AND (push_bit (codeSize st mod 32) 1 - 1)),
               st))"

text \<open>One iteration of the main loop: it goes on, leaves the loop, or throws.\<close>

datatype lzw_outcome = Continue lzw_state | Break lzw_state | Throw error

definition js_shl1 :: "nat \<Rightarrow> int" where
  \<comment> \<open>\<^verbatim>\<open>1 << n\<close>, a signed 32-bit integer\<close>
  "js_shl1 n = sint (push_bit (n mod 32) (1 :: 32 word))"

definition first_byte :: "u8 list \<Rightarrow> u8" where
  "first_byte entry = (case entry of [] \<Rightarrow> 0 | b # _ \<Rightarrow> b)"

definition lzw_emit :: "lzw_state \<Rightarrow> nat \<Rightarrow> u8 list \<Rightarrow> lzw_outcome" where
  "lzw_emit st code entry =
     (let st = st\<lparr>lzw_output := lzw_output st @ entry\<rparr>
      in if oldCode st \<ge> 0 \<and> nextCode st < 4096
         then
           (case js_array_get (dictionary st) (oldCode st) of
              None \<Rightarrow> Throw TypeError
            | Some old \<Rightarrow>
                let st = st\<lparr>dictionary := js_array_set (dictionary st) (nextCode st) (old @ [first_byte entry]),
                            nextCode := nextCode st + 1\<rparr>;
                    st = (if int (nextCode st) \<ge> js_shl1 (codeSize st) \<and> codeSize st < 12
                          then st\<lparr>codeSize := codeSize st + 1\<rparr> else st)
                in Continue (st\<lparr>oldCode := int code\<rparr>))
         else Continue (st\<lparr>oldCode := int code\<rparr>))"

definition lzw_step :: "u8 list \<Rightarrow> nat \<Rightarrow> lzw_state \<Rightarrow> lzw_outcome" where
  "lzw_step input endPos st0 =
     (let (code, st) = readCode input endPos st0
      in if code = 257 then Break st
         else if code = 256
         then Continue (st\<lparr>dictionary := init_dictionary (js_set_length (dictionary st) 258),
                           nextCode := 258, codeSize := 9, oldCode := - 1\<rparr>)
         else if code < length (dictionary st)
         then (case js_array_get (dictionary st) (int code) of
                 None \<Rightarrow> Throw TypeError
               | Some entry \<Rightarrow> lzw_emit st code entry)
         else if code = nextCode st \<and> oldCode st \<ge> 0
         then (case js_array_get (dictionary st) (oldCode st) of
                 None \<Rightarrow> Throw TypeError
               | Some old \<Rightarrow> lzw_emit st code (old @ [first_byte old]))
         else Break st)"

text \<open>
  The main loop may, for all the definition says, run forever: it is a partial function,
  \<open>None\<close> when it does not return. \<^verbatim>\<open>new Uint8Array(output)\<close> is the list of bytes
  collected.
\<close>

partial_function (option) lzw_loop :: "u8 list \<Rightarrow> nat \<Rightarrow> lzw_state \<Rightarrow> (error + u8 list) option" where
  "lzw_loop input endPos st =
     (if bytePos st < endPos \<or> bitsInBuffer st \<ge> codeSize st
      then (case lzw_step input endPos st of
              Continue st' \<Rightarrow> lzw_loop input endPos st'
            | Break st' \<Rightarrow> Some (Inr (lzw_output st'))
            | Throw e \<Rightarrow> Some (Inl e))
      else Some (Inr (lzw_output st)))"

declare lzw_loop.simps [code]

definition decompressLZW :: "u8 list \<Rightarrow> nat \<Rightarrow> nat \<Rightarrow> (error + u8 list) option" where
  "decompressLZW input offset len = lzw_loop input (offset + len) (lzw_init offset)"

text \<open>The states of a run: the state at each test of the loop condition, and the state
  in which the loop is left by \<^verbatim>\<open>break\<close>.\<close>

inductive lzw_reach :: "u8 list \<Rightarrow> nat \<Rightarrow> nat \<Rightarrow> lzw_state \<Rightarrow> bool"
  for input :: "u8 list" and endPos :: nat and offset :: nat where
  start: "lzw_reach input endPos offset (lzw_init offset)"
| continue: "lzw_reach input endPos offset st \<Longrightarrow>
     bytePos st < endPos \<or> bitsInBuffer st \<ge> codeSize st \<Longrightarrow>
     lzw_step input endPos st = Continue st' \<Longrightarrow> lzw_reach input endPos offset st'"
| break: "lzw_reach input endPos offset st \<Longrightarrow>
     bytePos st < endPos \<or> bitsInBuffer st \<ge> codeSize st \<Longrightarrow>
     lzw_step input endPos st = Break st' \<Longrightarrow> lzw_reach input endPos offset st'"

section \<open>FallbackScanner: \<^verbatim>\<open>extractFallback\<close>\<close>

fun js_ge :: "number \<Rightarrow> number \<Rightarrow> bool" where
  "js_ge (Num a) (Num b) = (a \<ge> b)"
| "js_ge _ _ = False"

fun js_le :: "number \<Rightarrow> number \<Rightarrow> bool" where
  "js_le (Num a) (Num b) = (a \<le> b)"
| "js_le _ _ = False"

definition reflectance :: "int \<Rightarrow> number" where
  \<comment> \<open>\<^verbatim>\<open>int16Val / 10000\<close>\<close>
  "reflectance int16Val = js_div (Num (real_of_int int16Val)) (Num 10000)"

text \<open>The loop that counts the plausible samples among the first ones at \<open>start\<close>.\<close>

fun count_valid :: "u8 list \<Rightarrow> nat \<Rightarrow> bool \<Rightarrow> nat list \<Rightarrow> nat \<Rightarrow> error + nat" where
  "count_valid buffer start littleEndian [] validSamples = Inr validSamples"
| "count_valid buffer start littleEndian (i # rest) validSamples =
     ebind (getInt16 buffer (start + i * 2) littleEndian) (\<lambda>s.
       let val = reflectance s
       in count_valid buffer start littleEndian rest
            (if js_ge val (Num (- 1)) \<and> js_le val (Num 2) then validSamples + 1
             else validSamples))"

text \<open>The loop that copies the raster from \<open>start\<close>.\<close>

fun fill_from :: "u8 list \<Rightarrow> nat \<Rightarrow> bool \<Rightarrow> nat list \<Rightarrow> number list \<Rightarrow> error + number list" where
  "fill_from buffer start littleEndian [] result = Inr result"
| "fill_from buffer start littleEndian (i # rest) result =
     ebind (getInt16 buffer (start + i * 2) littleEndian) (\<lambda>s.
       fill_from buffer start littleEndian rest (result[i := reflectance s]))"

text \<open>The loop over the candidate offsets; the first accepted one returns.\<close>

fun try_starts :: "u8 list \<Rightarrow> int \<Rightarrow> bool \<Rightarrow> int list \<Rightarrow> number list \<Rightarrow> error + number list" where
  "try_starts buffer totalPixels littleEndian [] result = Inr result"
| "try_starts buffer totalPixels littleEndian (start # rest) result =
     (let expectedBytes = totalPixels * 2
      in if start \<ge> 0 \<and> start + expectedBytes \<le> int (length buffer)
         then ebind (count_valid buffer (nat start) littleEndian
                       [0..<nat (min 100 totalPixels)] 0) (\<lambda>validSamples.
                if validSamples > 80
                then fill_from buffer (nat start) littleEndian [0..<nat totalPixels] result
                else try_starts buffer totalPixels littleEndian rest result)
         else try_starts buffer totalPixels littleEndian rest result)"

definition extractFallback :: "u8 list \<Rightarrow> int \<Rightarrow> int \<Rightarrow> bool \<Rightarrow> error + number list" where
  "extractFallback buffer width height littleEndian =
     (let totalPixels = width * height
      in if totalPixels < 0 then Inl RangeError
         else
           let result = replicate (nat totalPixels) (Num 0);
               expectedBytes = totalPixels * 2;
               possibleStarts = [8, 256, 512, int (length buffer) - expectedBytes]
           in try_starts buffer totalPixels littleEndian possibleStarts result)"

section \<open>TiffContainerParser and SampleConverter: \<^verbatim>\<open>parseTiffInt16ToFloat32\<close>\<close>

text \<open>
  The part of the image file directory that the parser keeps.
\<close>

record ifd_info =
  compression :: nat
  stripOffsets :: "nat list"
  stripByteCounts :: "nat list"
  rowsPerStrip :: int

text \<open>The loop that pushes the entries of an offset or byte-count array at \<open>ptr\<close>.\<close>

function push_values :: "u8 list \<Rightarrow> bool \<Rightarrow> nat \<Rightarrow> nat \<Rightarrow> nat \<Rightarrow> nat list \<Rightarrow> error + nat list" where
  "push_values buffer littleEndian ptr cnt j acc =
     (if j < cnt \<and> ptr + j * 4 + 4 \<le> length buffer
      then ebind (getUint32 buffer (ptr + j * 4) littleEndian) (\<lambda>v.
             push_values buffer littleEndian ptr cnt (j + 1) (acc @ [v]))
      else Inr acc)"
  by pat_completeness auto
termination
  by (relation "measure (\<lambda>(buffer, littleEndian, ptr, cnt, j, acc). cnt - j)") auto

definition read_entry :: "u8 list \<Rightarrow> bool \<Rightarrow> nat \<Rightarrow> ifd_info \<Rightarrow> error + ifd_info" where
  "read_entry buffer littleEndian entryOffset ifd =
     ebind (getUint16 buffer entryOffset littleEndian) (\<lambda>tag.
     ebind (getUint16 buffer (entryOffset + 2) littleEndian) (\<lambda>ftype.
     ebind (getUint32 buffer (entryOffset + 4) littleEndian) (\<lambda>cnt.
       let valueField = entryOffset + 8;
           getValue = (if ftype = 3 then getUint16 buffer valueField littleEndian
                       else getUint32 buffer valueField littleEndian);
           getPointer = getUint32 buffer valueField littleEndian
       in if tag = 259 then ebind getValue (\<lambda>v. Inr (ifd\<lparr>compression := v\<rparr>))
          else if tag = 278 then ebind getValue (\<lambda>v. Inr (ifd\<lparr>rowsPerStrip := int v\<rparr>))
          else if tag = 273 then
            (if cnt = 1 then ebind getValue (\<lambda>v. Inr (ifd\<lparr>stripOffsets := [v]\<rparr>))
             else ebind getPointer (\<lambda>ptr.
                  ebind (push_values buffer littleEndian ptr cnt 0 (stripOffsets ifd)) (\<lambda>vs.
                    Inr (ifd\<lparr>stripOffsets := vs\<rparr>))))
          else if tag = 279 then
            (if cnt = 1 then ebind getValue (\<lambda>v. Inr (ifd\<lparr>stripByteCounts := [v]\<rparr>))
             else ebind getPointer (\<lambda>ptr.
                  ebind (push_values buffer littleEndian ptr cnt 0 (stripByteCounts ifd)) (\<lambda>vs.
                    Inr (ifd\<lparr>stripByteCounts := vs\<rparr>))))
          else Inr ifd)))"

text \<open>The loop over the directory entries; an entry that does not fit ends it.\<close>

fun read_entries :: "u8 list \<Rightarrow> bool \<Rightarrow> nat \<Rightarrow> nat list \<Rightarrow> ifd_info \<Rightarrow> error + ifd_info" where
  "read_entries buffer littleEndian ifdOffset [] ifd = Inr ifd"
| "read_entries buffer littleEndian ifdOffset (i # rest) ifd =
     (let entryOffset = ifdOffset + 2 + i * 12
      in if entryOffset + 12 > length buffer then Inr ifd
         else ebind (read_entry buffer littleEndian entryOffset ifd)
                (read_entries buffer littleEndian ifdOffset rest))"

text \<open>
  The decode can throw, and its LZW loop is a partial function: a decode returns
  \<open>None\<close> when it does not return, \<open>Some (Inl e)\<close> when it throws.
\<close>

definition rbind :: "(error + 'a) option \<Rightarrow> ('a \<Rightarrow> (error + 'b) option) \<Rightarrow> (error + 'b) option" where
  "rbind m f = (case m of None \<Rightarrow> None | Some (Inl e) \<Rightarrow> Some (Inl e) | Some (Inr v) \<Rightarrow> f v)"

text \<open>
  The inner loop of the LZW and Deflate branches: the samples of one decompressed strip go
  to \<^verbatim>\<open>result[pixelIndex++]\<close> while the raster is not full.
\<close>

fun write_samples :: "u8 list \<Rightarrow> bool \<Rightarrow> int \<Rightarrow> nat list \<Rightarrow> nat \<times> number list \<Rightarrow> error + nat \<times> number list" where
  "write_samples stripData littleEndian totalPixels [] st = Inr st"
| "write_samples stripData littleEndian totalPixels (i # rest) (pixelIndex, result) =
     (if int pixelIndex < totalPixels
      then ebind (getInt16 stripData (i * 2) littleEndian) (\<lambda>int16Val.
             write_samples stripData littleEndian totalPixels rest
               (pixelIndex + 1, result[pixelIndex := reflectance int16Val]))
      else Inr (pixelIndex, result))"

text \<open>
  The LZW branch. A strip without a byte count passes \<^verbatim>\<open>undefined\<close> as the length:
  the end position is \<^verbatim>\<open>NaN\<close>, the decoder's loop does not run and the strip is empty.
\<close>

fun lzw_strips :: "u8 list \<Rightarrow> bool \<Rightarrow> int \<Rightarrow> ifd_info \<Rightarrow> nat list \<Rightarrow> nat \<times> number list \<Rightarrow>
    (error + nat \<times> number list) option" where
  "lzw_strips bytes littleEndian totalPixels ifd [] st = Some (Inr st)"
| "lzw_strips bytes littleEndian totalPixels ifd (s # rest) (pixelIndex, result) =
     (if int pixelIndex < totalPixels
      then rbind (case typed_get (stripByteCounts ifd) s of
                    None \<Rightarrow> Some (Inr [])
                  | Some byteCount \<Rightarrow> decompressLZW bytes (stripOffsets ifd ! s) byteCount) (\<lambda>stripData.
           let pixelCount = length stripData div 2
           in rbind (Some (write_samples stripData littleEndian totalPixels [0..<pixelCount]
                             (pixelIndex, result)))
                (lzw_strips bytes littleEndian totalPixels ifd rest))
      else Some (Inr (pixelIndex, result)))"

text \<open>The uncompressed branch: a sample that does not lie in the buffer is skipped.\<close>

fun raw_samples :: "u8 list \<Rightarrow> bool \<Rightarrow> int \<Rightarrow> nat \<Rightarrow> nat list \<Rightarrow> nat \<times> number list \<Rightarrow> error + nat \<times> number list" where
  "raw_samples buffer littleEndian totalPixels offset [] st = Inr st"
| "raw_samples buffer littleEndian totalPixels offset (i # rest) (pixelIndex, result) =
     (if int pixelIndex < totalPixels
      then let pos = offset + i * 2
           in if pos + 2 \<le> length buffer
              then ebind (getInt16 buffer pos littleEndian) (\<lambda>int16Val.
                     raw_samples buffer littleEndian totalPixels offset rest
                       (pixelIndex + 1, result[pixelIndex := reflectance int16Val]))
              else raw_samples buffer littleEndian totalPixels offset rest (pixelIndex, result)
      else Inr (pixelIndex, result))"

fun raw_strips :: "u8 list \<Rightarrow> bool \<Rightarrow> int \<Rightarrow> ifd_info \<Rightarrow> nat list \<Rightarrow> nat \<times> number list \<Rightarrow>
    error + nat \<times> number list" where
  "raw_strips buffer littleEndian totalPixels ifd [] st = Inr st"
| "raw_strips buffer littleEndian totalPixels ifd (s # rest) (pixelIndex, result) =
     (if int pixelIndex < totalPixels
      then let offset = stripOffsets ifd ! s;
               byteCount = (case typed_get (stripByteCounts ifd) s of
                              None \<Rightarrow> totalPixels * 2
                            | Some c \<Rightarrow> if c = 0 then totalPixels * 2 else int c);
               pixelCount = nat (byteCount div 2)
           in ebind (raw_samples buffer littleEndian totalPixels offset [0..<pixelCount]
                       (pixelIndex, result))
                (raw_strips buffer littleEndian totalPixels ifd rest)
      else Inr (pixelIndex, result))"

text \<open>
  The Deflate branch. \<^verbatim>\<open>decompressDeflate\<close> runs the platform's
  \<^verbatim>\<open>DecompressionStream\<close>; it is the parameter \<open>inflate\<close>, \<open>None\<close> when it throws. An
  exception inside \<^verbatim>\<open>try\<close> is caught, and the strip is filled with zeros.
  \<^verbatim>\<open>bytes.slice(a, b)\<close> clamps its bounds; a missing byte count makes \<open>b\<close> \<^verbatim>\<open>NaN\<close>, which
  \<^verbatim>\<open>slice\<close> takes as 0.
\<close>

definition js_slice :: "u8 list \<Rightarrow> nat \<Rightarrow> nat \<Rightarrow> u8 list" where
  "js_slice bytes a b = take (b - a) (drop a bytes)"

fun zero_fill :: "int \<Rightarrow> nat list \<Rightarrow> nat \<times> number list \<Rightarrow> nat \<times> number list" where
  "zero_fill totalPixels [] st = st"
| "zero_fill totalPixels (i # rest) (pixelIndex, result) =
     (if int pixelIndex < totalPixels
      then zero_fill totalPixels rest (pixelIndex + 1, result[pixelIndex := Num 0])
      else (pixelIndex, result))"

fun deflate_strips :: "(u8 list \<Rightarrow> u8 list option) \<Rightarrow> u8 list \<Rightarrow> bool \<Rightarrow> int \<Rightarrow> int \<Rightarrow> ifd_info \<Rightarrow>
    nat list \<Rightarrow> nat \<times> number list \<Rightarrow> nat \<times> number list" where
  "deflate_strips inflate bytes littleEndian totalPixels width ifd [] st = st"
| "deflate_strips inflate bytes littleEndian totalPixels width ifd (s # rest) (pixelIndex, result) =
     (if int pixelIndex < totalPixels
      then let compressedData =
                 js_slice bytes (stripOffsets ifd ! s)
                   (case typed_get (stripByteCounts ifd) s of
                      None \<Rightarrow> 0
                    | Some byteCount \<Rightarrow> stripOffsets ifd ! s + byteCount);
               expectedPixels = \<lceil>real_of_int (rowsPerStrip ifd * width)\<rceil>;
               failed = zero_fill totalPixels [0..<nat expectedPixels] (pixelIndex, result)
           in deflate_strips inflate bytes littleEndian totalPixels width ifd rest
                (case inflate compressedData of
                   None \<Rightarrow> failed
                 | Some decompressed \<Rightarrow>
                     (case write_samples decompressed littleEndian totalPixels
                             [0..<length decompressed div 2] (pixelIndex, result) of
                        Inl e \<Rightarrow> failed
                      | Inr st \<Rightarrow> st))
      else (pixelIndex, result))"

text \<open>
  The branches. The second component of the result records whether the raster comes from
  \<^verbatim>\<open>extractFallback\<close>. \<^verbatim>\<open>new Float32Array(totalPixels)\<close> raises \<^verbatim>\<open>RangeError\<close> for a
  negative length.
\<close>

datatype decode_path = Codec | Fallback

definition decode_strips :: "(u8 list \<Rightarrow> u8 list option) \<Rightarrow> u8 list \<Rightarrow> bool \<Rightarrow> int \<Rightarrow> int \<Rightarrow> ifd_info \<Rightarrow>
    (error + decode_path \<times> number list) option" where
  "decode_strips inflate buffer littleEndian width height ifd =
     (let totalPixels = width * height
      in if totalPixels < 0 then Some (Inl RangeError)
         else
           let result = replicate (nat totalPixels) (Num 0);
               strips = [0..<length (stripOffsets ifd)]
           in if compression ifd = 5
              then rbind (lzw_strips buffer littleEndian totalPixels ifd strips (0, result))
                     (\<lambda>(pixelIndex, result). Some (Inr (Codec, result)))
              else if compression ifd = 1
              then rbind (Some (raw_strips buffer littleEndian totalPixels ifd strips (0, result)))
                     (\<lambda>(pixelIndex, result). Some (Inr (Codec, result)))
              else if compression ifd = 8 \<or> compression ifd = 32946
              then let (pixelIndex, result) =
                         deflate_strips inflate buffer littleEndian totalPixels width ifd strips
                           (0, result)
                   in if real pixelIndex < real_of_int totalPixels * 0.5
                      then rbind (Some (extractFallback buffer width height littleEndian))
                             (\<lambda>r. Some (Inr (Fallback, r)))
                      else Some (Inr (Codec, result))
              else rbind (Some (extractFallback buffer width height littleEndian))
                     (\<lambda>r. Some (Inr (Fallback, r))))"

text \<open>The header, the directory, the decode.\<close>

definition read_ifd :: "u8 list \<Rightarrow> int \<Rightarrow> error + bool \<times> ifd_info" where
  "read_ifd buffer height =
     (if length buffer < 8 then Inl BufferTooSmall
      else ebind (getUint8 buffer 0) (\<lambda>byte0.
           ebind (getUint8 buffer 1) (\<lambda>byte1.
             let littleEndian = (byte0 = 0x49 \<and> byte1 = 0x49)
             in if byte0 \<noteq> 0x49 \<and> byte0 \<noteq> 0x4D then Inl InvalidTiffHeader
                else ebind (getUint32 buffer 4 littleEndian) (\<lambda>ifdOffset.
                       if ifdOffset + 2 > length buffer then Inl InvalidIfdOffset
                       else ebind (getUint16 buffer ifdOffset littleEndian) (\<lambda>numEntries.
                            ebind (read_entries buffer littleEndian ifdOffset [0..<numEntries]
                                     \<lparr>compression = 1, stripOffsets = [], stripByteCounts = [],
                                      rowsPerStrip = height\<rparr>) (\<lambda>ifd.
                              Inr (littleEndian, ifd)))))))"

definition parseTiff_traced :: "(u8 list \<Rightarrow> u8 list option) \<Rightarrow> u8 list \<Rightarrow> int \<Rightarrow> int \<Rightarrow>
    (error + decode_path \<times> number list) option" where
  "parseTiff_traced inflate buffer width height =
     rbind (Some (read_ifd buffer height)) (\<lambda>(littleEndian, ifd).
       decode_strips inflate buffer littleEndian width height ifd)"

definition parseTiffInt16ToFloat32 :: "(u8 list \<Rightarrow> u8 list option) \<Rightarrow> u8 list \<Rightarrow> int \<Rightarrow> int \<Rightarrow>
    (error + number list) option" where
  "parseTiffInt16ToFloat32 inflate buffer width height =
     rbind (parseTiff_traced inflate buffer width height) (\<lambda>(path, result). Some (Inr result))"

section \<open>The layout of the bitmap\<close>

lemma ceil_row: "\<lceil>real_of_int (w * 4) / 4\<rceil> * 4 = w * 4"
  by simp

lemma length_store [simp]: "length (store buf off bs) = length buf"
  by (induction bs arbitrary: buf off) simp_all

lemma nth_store: "i < length buf \<Longrightarrow>
  store buf off bs ! i = (if off \<le> i \<and> i < off + length bs then bs ! (i - off) else buf ! i)"
proof (induction bs arbitrary: buf off)
  case Nil
  then show ?case by auto
next
  case (Cons b bs)
  have "i - Suc off = x" if "i - off = Suc x" for x using that by arith
  with Cons show ?case by (auto simp: nth_list_update nth_Cons split: nat.splits)
qed

definition src_byte :: "u8 list \<Rightarrow> nat \<Rightarrow> u8" where
  "src_byte rgba i = undef0 (typed_get rgba i)"

definition row_done :: "u8 list \<Rightarrow> nat \<Rightarrow> nat \<Rightarrow> nat \<Rightarrow> u8 list \<Rightarrow> u8 list \<Rightarrow> bool" where
  "row_done rgba src off n bmp bmp' \<longleftrightarrow>
     length bmp' = length bmp \<and>
     (\<forall>j. j < off \<or> off + 4 * n \<le> j \<longrightarrow> bmp' ! j = bmp ! j) \<and>
     (\<forall>x<n. bmp' ! (off + 4 * x) = src_byte rgba (src + 4 * x + 2) \<and>
            bmp' ! (off + 4 * x + 1) = src_byte rgba (src + 4 * x + 1) \<and>
            bmp' ! (off + 4 * x + 2) = src_byte rgba (src + 4 * x) \<and>
            bmp' ! (off + 4 * x + 3) = src_byte rgba (src + 4 * x + 3))"

definition rows_done :: "u8 list \<Rightarrow> nat \<Rightarrow> nat \<Rightarrow> u8 list \<Rightarrow> u8 list \<Rightarrow> bool" where
  "rows_done rgba w m bmp bmp' \<longleftrightarrow>
     length bmp' = length bmp \<and>
     (\<forall>j. j < 54 \<or> 54 + 4 * w * m \<le> j \<longrightarrow> bmp' ! j = bmp ! j) \<and>
     (\<forall>y<m. \<forall>x<w. bmp' ! (54 + 4 * (y * w + x)) = src_byte rgba (4 * (y * w + x) + 2) \<and>
            bmp' ! (54 + 4 * (y * w + x) + 1) = src_byte rgba (4 * (y * w + x) + 1) \<and>
            bmp' ! (54 + 4 * (y * w + x) + 2) = src_byte rgba (4 * (y * w + x)) \<and>
            bmp' ! (54 + 4 * (y * w + x) + 3) = src_byte rgba (4 * (y * w + x) + 3))"

lemma bmp_row_fold:
  assumes "off + 4 * n \<le> length bmp"
  shows "\<exists>bmp'. fold (bmp_pixel rgba w y) [0..<n] (bmp, off) = (bmp', off + 4 * n) \<and>
           row_done rgba (y * nat w * 4) off n bmp bmp'"
  using assms
proof (induction n)
  case 0
  then show ?case by (simp add: row_done_def)
next
  case (Suc n)
  then obtain b where b: "fold (bmp_pixel rgba w y) [0..<n] (bmp, off) = (b, off + 4 * n)"
    and rd: "row_done rgba (y * nat w * 4) off n bmp b"
    by auto
  let ?b' = "fst (bmp_pixel rgba w y n (b, off + 4 * n))"
  have step: "bmp_pixel rgba w y n (b, off + 4 * n) = (?b', off + 4 * Suc n)"
    by (simp add: bmp_pixel_def Let_def)
  have len: "length b = length bmp" using rd by (simp add: row_done_def)
  have l': "length ?b' = length bmp" using len by (simp add: bmp_pixel_def Let_def)
  have out: "?b' ! j = bmp ! j" if "j < off \<or> off + 4 * Suc n \<le> j" for j
    using that rd by (auto simp: bmp_pixel_def Let_def row_done_def)
  have inn: "?b' ! (off + 4 * x) = src_byte rgba (y * nat w * 4 + 4 * x + 2) \<and>
            ?b' ! (off + 4 * x + 1) = src_byte rgba (y * nat w * 4 + 4 * x + 1) \<and>
            ?b' ! (off + 4 * x + 2) = src_byte rgba (y * nat w * 4 + 4 * x) \<and>
            ?b' ! (off + 4 * x + 3) = src_byte rgba (y * nat w * 4 + 4 * x + 3)"
    if "x < Suc n" for x
  proof -
    from that consider "x < n" | "x = n" by linarith
    then show ?thesis
    proof cases
      case 1
      then show ?thesis using rd by (simp add: bmp_pixel_def Let_def row_done_def)
    next
      case 2
      then show ?thesis using Suc.prems len
        by (simp add: bmp_pixel_def Let_def src_byte_def algebra_simps)
    qed
  qed
  have "row_done rgba (y * nat w * 4) off (Suc n) bmp ?b'"
    unfolding row_done_def using l' out inn by blast
  moreover have "fold (bmp_pixel rgba w y) [0..<Suc n] (bmp, off) = (?b', off + 4 * Suc n)"
    using b step by simp
  ultimately show ?case by blast
qed


lemma pixel_index_less: "y < m \<Longrightarrow> x < w \<Longrightarrow> y * w + x < m * (w::nat)"
proof -
  assume "y < m" "x < w"
  then have "y * w + x < Suc y * w" by simp
  also have "\<dots> \<le> m * w" using \<open>y < m\<close> by (intro mult_le_mono1) simp
  finally show ?thesis .
qed

lemma rows_done_step:
  assumes rs: "rows_done rgba w m bmp b"
    and r: "row_done rgba (m * w * 4) (54 + 4 * w * m) w b b'"
  shows "rows_done rgba w (Suc m) bmp b'"
proof -
  have l: "length b' = length bmp" using rs r by (simp add: rows_done_def row_done_def)
  have out: "b' ! j = bmp ! j" if "j < 54 \<or> 54 + 4 * w * Suc m \<le> j" for j
  proof -
    have "b' ! j = b ! j" using that r by (auto simp: row_done_def)
    moreover have "b ! j = bmp ! j" using that rs by (auto simp: rows_done_def)
    ultimately show ?thesis by simp
  qed
  have inn: "b' ! (54 + 4 * (y * w + x)) = src_byte rgba (4 * (y * w + x) + 2) \<and>
            b' ! (54 + 4 * (y * w + x) + 1) = src_byte rgba (4 * (y * w + x) + 1) \<and>
            b' ! (54 + 4 * (y * w + x) + 2) = src_byte rgba (4 * (y * w + x)) \<and>
            b' ! (54 + 4 * (y * w + x) + 3) = src_byte rgba (4 * (y * w + x) + 3)"
    if "y < Suc m" "x < w" for y x
  proof -
    from that consider "y < m" | "y = m" by linarith
    then show ?thesis
    proof cases
      case 1
      then have "y * w + x < m * w" using that by (intro pixel_index_less)
      then have lt: "54 + 4 * (y * w + x) + 3 < 54 + 4 * w * m" by (simp add: mult.commute)
      have same: "b' ! j = b ! j" if "j < 54 + 4 * w * m" for j
        using that r by (simp add: row_done_def)
      have "b' ! (54 + 4 * (y * w + x)) = b ! (54 + 4 * (y * w + x))"
        "b' ! (54 + 4 * (y * w + x) + 1) = b ! (54 + 4 * (y * w + x) + 1)"
        "b' ! (54 + 4 * (y * w + x) + 2) = b ! (54 + 4 * (y * w + x) + 2)"
        "b' ! (54 + 4 * (y * w + x) + 3) = b ! (54 + 4 * (y * w + x) + 3)"
        using lt by (auto intro!: same)
      then show ?thesis using rs 1 that by (simp add: rows_done_def)
    next
      case 2
      from r have "b' ! (54 + 4 * w * m + 4 * x) = src_byte rgba (m * w * 4 + 4 * x + 2) \<and>
            b' ! (54 + 4 * w * m + 4 * x + 1) = src_byte rgba (m * w * 4 + 4 * x + 1) \<and>
            b' ! (54 + 4 * w * m + 4 * x + 2) = src_byte rgba (m * w * 4 + 4 * x) \<and>
            b' ! (54 + 4 * w * m + 4 * x + 3) = src_byte rgba (m * w * 4 + 4 * x + 3)"
        using that unfolding row_done_def by blast
      moreover have "54 + 4 * w * m + 4 * x = 54 + 4 * (y * w + x)" "m * w * 4 + 4 * x = 4 * (y * w + x)"
        using 2 by (simp_all add: algebra_simps)
      ultimately show ?thesis by simp
    qed
  qed
  show ?thesis unfolding rows_done_def using l out inn by blast
qed

lemma bmp_rows_fold:
  assumes "54 + 4 * nat w * m \<le> length bmp"
  shows "\<exists>bmp'. fold (bmp_row rgba w) [0..<m] (bmp, 54) = (bmp', 54 + 4 * nat w * m) \<and>
           rows_done rgba (nat w) m bmp bmp'"
  using assms
proof (induction m)
  case 0
  then show ?case by (simp add: rows_done_def)
next
  case (Suc m)
  then obtain b where b: "fold (bmp_row rgba w) [0..<m] (bmp, 54) = (b, 54 + 4 * nat w * m)"
    and rs: "rows_done rgba (nat w) m bmp b"
    by auto
  have len: "length b = length bmp" using rs by (simp add: rows_done_def)
  have "54 + 4 * nat w * m + 4 * nat w \<le> length b" using Suc.prems len by simp
  from bmp_row_fold[OF this, of rgba w m]
  obtain b' where b': "bmp_row rgba w m (b, 54 + 4 * nat w * m) = (b', 54 + 4 * nat w * m + 4 * nat w)"
    and r: "row_done rgba (m * nat w * 4) (54 + 4 * nat w * m) (nat w) b b'"
    unfolding bmp_row_def by blast
  have "rows_done rgba (nat w) (Suc m) bmp b'" using rs r by (rule rows_done_step)
  moreover have "fold (bmp_row rgba w) [0..<Suc m] (bmp, 54) = (b', 54 + 4 * nat w * Suc m)"
    using b b' by simp
  ultimately show ?case by blast
qed

lemma length_bytes32 [simp]: "length (bytes32 v le) = 4"
  by (simp add: bytes32_def Let_def)

lemma length_bytes16 [simp]: "length (bytes16 v le) = 2"
  by (simp add: bytes16_def Let_def)

lemma word32_bytes: 
  "ucast (ucast v :: u8) OR push_bit 8 (ucast (ucast (drop_bit 8 v) :: u8)) OR
   push_bit 16 (ucast (ucast (drop_bit 16 v) :: u8)) OR
   push_bit 24 (ucast (ucast (drop_bit 24 v) :: u8)) = (v :: 32 word)"
proof (rule bit_eqI)
  fix n
  assume "possible_bit TYPE(32 word) n"
  then have n: "n < 32" by (simp add: possible_bit_word)
  consider "n < 8" | "8 \<le> n" "n < 16" | "16 \<le> n" "n < 24" | "24 \<le> n" by linarith
  then show "bit (ucast (ucast v :: u8) OR push_bit 8 (ucast (ucast (drop_bit 8 v) :: u8)) OR
   push_bit 16 (ucast (ucast (drop_bit 16 v) :: u8)) OR
   push_bit 24 (ucast (ucast (drop_bit 24 v) :: u8)) :: 32 word) n = bit v n"
    using n by cases (auto simp: bit_simps)
qed

lemma word32_at_store: "off + 4 \<le> length buf \<Longrightarrow>
   word32_at (store buf off (bytes32 v le)) off le = v"
  using word32_bytes[of v]
  by (simp add: word32_at_def nth_store bytes32_def Let_def or.assoc)

lemma word32_at_store_other: "off + 4 \<le> length buf \<Longrightarrow>
   off + 4 \<le> off' \<or> off' + length bs \<le> off \<Longrightarrow>
   word32_at (store buf off' bs) off le = word32_at buf off le"
  by (auto simp add: word32_at_def nth_store Let_def)

lemma setUint32_ok: "off + 4 \<le> length buf \<Longrightarrow>
   setUint32 buf off v le = Inr (store buf off (bytes32 (word_of_int v) le))"
  by (simp add: setUint32_def)

lemma setInt32_ok: "off + 4 \<le> length buf \<Longrightarrow>
   setInt32 buf off v le = Inr (store buf off (bytes32 (word_of_int v) le))"
  by (simp add: setInt32_def)

lemma setUint16_ok: "off + 2 \<le> length buf \<Longrightarrow>
   setUint16 buf off v le = Inr (store buf off (bytes16 (word_of_int v) le))"
  by (simp add: setUint16_def)

lemma ebind_Inr [simp]: "ebind (Inr v) f = f v"
  by (simp add: ebind_def)

lemma ebind_Inl [simp]: "ebind (Inl e) f = Inl e"
  by (simp add: ebind_def)

definition bmp_header :: "int \<Rightarrow> int \<Rightarrow> u8 list" where
  "bmp_header w h =
     store (store (store (store (store (store (store (store (store (store (store
       ((replicate (nat (54 + w * 4 * h)) 0)[0 := 0x42, 1 := 0x4D])
       2 (bytes32 (word_of_int (54 + w * 4 * h)) True))
       10 (bytes32 54 True))
       14 (bytes32 40 True))
       18 (bytes32 (word_of_int w) True))
       22 (bytes32 (word_of_int (- h)) True))
       26 (bytes16 1 True))
       28 (bytes16 32 True))
       30 (bytes32 0 True))
       34 (bytes32 (word_of_int (w * 4 * h)) True))
       38 (bytes32 2835 True))
       42 (bytes32 2835 True)"

lemma createBMP_header:
  assumes "0 \<le> w" "0 \<le> h"
  shows "createBMP rgba w h = Inr (bmp_pixels rgba w h (bmp_header w h))"
proof -
  have wh: "0 \<le> w * h" using assms by simp
  then have n: "54 \<le> nat (54 + w * 4 * h)" by linarith
  have "\<not> 54 + w * 4 * h < 0" using wh by linarith
  then show ?thesis
    using n
    by (simp add: createBMP_def Let_def bmp_header_def setUint32_ok setInt32_ok setUint16_ok)
qed

lemma length_bmp_header:
  assumes "0 \<le> w" "0 \<le> h"
  shows "length (bmp_header w h) = nat (54 + w * 4 * h)"
proof -
  have wh: "0 \<le> w * h" using assms by simp
  then have n: "54 \<le> nat (54 + w * 4 * h)" by linarith
  then show ?thesis
    by (simp add: bmp_header_def)
qed

lemma bmp_header_fields:
  assumes "0 \<le> w" "0 \<le> h"
  shows "bmp_header w h ! 0 = 0x42" "bmp_header w h ! 1 = 0x4D"
    "word32_at (bmp_header w h) 2 True = word_of_int (54 + w * 4 * h)"
    "word32_at (bmp_header w h) 10 True = 54"
    "word32_at (bmp_header w h) 18 True = word_of_int w"
    "word32_at (bmp_header w h) 22 True = word_of_int (- h)"
proof -
  have wh: "0 \<le> w * h" using assms by simp
  then have n: "54 \<le> nat (54 + w * 4 * h)" by linarith
  show "bmp_header w h ! 0 = 0x42" "bmp_header w h ! 1 = 0x4D"
    using n by (simp_all add: bmp_header_def nth_store)
  show "word32_at (bmp_header w h) 2 True = word_of_int (54 + w * 4 * h)"
    using n unfolding bmp_header_def
    by (simp add: word32_at_store_other word32_at_store)
  show "word32_at (bmp_header w h) 10 True = 54"
    using n unfolding bmp_header_def
    by (simp add: word32_at_store_other word32_at_store)
  show "word32_at (bmp_header w h) 18 True = word_of_int w"
    using n unfolding bmp_header_def
    by (simp add: word32_at_store_other word32_at_store)
  show "word32_at (bmp_header w h) 22 True = word_of_int (- h)"
    using n unfolding bmp_header_def
    by (simp add: word32_at_store_other word32_at_store)
qed

lemma src_byte_in: "i < length rgba \<Longrightarrow> src_byte rgba i = rgba ! i"
  by (simp add: src_byte_def typed_get_def undef0_def)

lemma word32_at_cong: "(\<And>j. j < off + 4 \<Longrightarrow> a ! j = b ! j) \<Longrightarrow> word32_at a off le = word32_at b off le"
  by (simp add: word32_at_def)

lemma unat_word32_of_int: "0 \<le> n \<Longrightarrow> n < 2 ^ 32 \<Longrightarrow> unat (word_of_int n :: 32 word) = nat n"
  by (simp add: unat_eq_nat_uint word_of_int_inverse uint_word_of_int)

lemma sint_word32_of_int: "- (2 ^ 31) \<le> n \<Longrightarrow> n < 2 ^ 31 \<Longrightarrow> sint (word_of_int n :: 32 word) = n"
  by (simp add: sint_sbintrunc' signed_take_bit_int_eq_self)

text \<open>
  \<^bold>\<open>Claim C4.\<close> For every width \<open>w\<close>, height \<open>h\<close> and RGBA buffer of length \<open>4 * w * h\<close>,
  \<^verbatim>\<open>createBMP\<close> returns a buffer of \<open>54 + 4 * w * h\<close> bytes that starts with the ASCII
  bytes \<open>B\<close> (0x42) and \<open>M\<close> (0x4D); the little-endian 32-bit field at offset 2 holds
  \<open>54 + 4 * w * h\<close>, the one at offset 10 holds 54, the signed one at offset 22 holds \<open>- h\<close>;
  and the pixel \<open>(x, y)\<close> stands at byte \<open>54 + 4 * (y * w + x)\<close> in the order blue, green,
  red, alpha, rows following each other without padding. The fields are 32-bit words, as
  \<^verbatim>\<open>setUint32\<close> and \<^verbatim>\<open>setInt32\<close> write them: the equalities are stated between words, and
  as numbers wherever the number fits its field.
\<close>

theorem createBMP_layout:
  assumes w: "0 \<le> w" and h: "0 \<le> h" and len: "length rgba = nat (4 * w * h)"
  shows "\<exists>bmp. createBMP rgba w h = Inr bmp \<and>
     length bmp = nat (54 + 4 * w * h) \<and>
     bmp ! 0 = 0x42 \<and> bmp ! 1 = 0x4D \<and>
     word32_at bmp 2 True = word_of_int (54 + 4 * w * h) \<and>
     word32_at bmp 10 True = 54 \<and>
     word32_at bmp 22 True = word_of_int (- h) \<and>
     (54 + 4 * w * h < 2 ^ 32 \<longrightarrow> getUint32 bmp 2 True = Inr (nat (54 + 4 * w * h))) \<and>
     getUint32 bmp 10 True = Inr 54 \<and>
     (h \<le> 2 ^ 31 \<longrightarrow> sint (word32_at bmp 22 True) = - h) \<and>
     (\<forall>y<nat h. \<forall>x<nat w.
        bmp ! (54 + 4 * (y * nat w + x)) = rgba ! (4 * (y * nat w + x) + 2) \<and>
        bmp ! (54 + 4 * (y * nat w + x) + 1) = rgba ! (4 * (y * nat w + x) + 1) \<and>
        bmp ! (54 + 4 * (y * nat w + x) + 2) = rgba ! (4 * (y * nat w + x)) \<and>
        bmp ! (54 + 4 * (y * nat w + x) + 3) = rgba ! (4 * (y * nat w + x) + 3))"
proof -
  let ?hdr = "bmp_header w h"
  have wh: "0 \<le> w * h" using w h by simp
  have size: "nat (54 + w * 4 * h) = 54 + 4 * nat w * nat h"
    using w h by (simp add: nat_add_distrib nat_mult_distrib)
  have lh: "length ?hdr = 54 + 4 * nat w * nat h"
    using length_bmp_header[OF w h] size by simp
  then have "54 + 4 * nat w * nat h \<le> length ?hdr" by simp
  from bmp_rows_fold[OF this, of rgba]
  obtain bmp where f: "fold (bmp_row rgba w) [0..<nat h] (?hdr, 54) = (bmp, 54 + 4 * nat w * nat h)"
    and rs: "rows_done rgba (nat w) (nat h) ?hdr bmp"
    by blast
  have res: "createBMP rgba w h = Inr bmp"
    using createBMP_header[OF w h, of rgba] f by (simp add: bmp_pixels_def)
  have lb: "length bmp = nat (54 + 4 * w * h)"
    using rs lh size by (simp add: rows_done_def mult.commute mult.left_commute)
  have keep: "bmp ! j = ?hdr ! j" if "j < 54" for j
    using rs that by (simp add: rows_done_def)
  have w32: "word32_at bmp off True = word32_at ?hdr off True" if "off + 4 \<le> 54" for off
    using that by (intro word32_at_cong keep) simp
  have b0: "bmp ! 0 = 0x42" "bmp ! 1 = 0x4D"
    using keep[of 0] keep[of 1] bmp_header_fields(1,2)[OF w h] by simp_all
  have f2: "word32_at bmp 2 True = word_of_int (54 + 4 * w * h)"
    using w32[of 2] bmp_header_fields(3)[OF w h] by (simp add: mult.commute mult.left_commute)
  have f10: "word32_at bmp 10 True = 54"
    using w32[of 10] bmp_header_fields(4)[OF w h] by simp
  have f22: "word32_at bmp 22 True = word_of_int (- h)"
    using w32[of 22] bmp_header_fields(6)[OF w h] by simp
  have l54: "54 \<le> length bmp" using lb wh by linarith
  have g2: "getUint32 bmp 2 True = Inr (nat (54 + 4 * w * h))" if "54 + 4 * w * h < 2 ^ 32"
  proof -
    have "0 \<le> 54 + 4 * w * h" using wh by linarith
    then have "unat (word_of_int (54 + 4 * w * h) :: 32 word) = nat (54 + 4 * w * h)"
      using that by (rule unat_word32_of_int)
    then show ?thesis using l54 f2 by (simp add: getUint32_def)
  qed
  have g10: "getUint32 bmp 10 True = Inr 54"
    using l54 f10 by (simp add: getUint32_def)
  have s22: "sint (word32_at bmp 22 True) = - h" if "h \<le> 2 ^ 31"
    using f22 sint_word32_of_int[of "- h"] h that by simp
  have px: "bmp ! (54 + 4 * (y * nat w + x)) = rgba ! (4 * (y * nat w + x) + 2) \<and>
        bmp ! (54 + 4 * (y * nat w + x) + 1) = rgba ! (4 * (y * nat w + x) + 1) \<and>
        bmp ! (54 + 4 * (y * nat w + x) + 2) = rgba ! (4 * (y * nat w + x)) \<and>
        bmp ! (54 + 4 * (y * nat w + x) + 3) = rgba ! (4 * (y * nat w + x) + 3)"
    if "y < nat h" "x < nat w" for y x
  proof -
    have "y * nat w + x < nat h * nat w" using that by (rule pixel_index_less)
    moreover have "length rgba = 4 * (nat h * nat w)"
      using len w h by (simp add: nat_mult_distrib mult.commute mult.left_commute)
    moreover have "4 * a + 3 < n" if "a < b" "n = 4 * b" for a b n :: nat
      using that by arith
    ultimately have "4 * (y * nat w + x) + 3 < length rgba" by blast
    then have "src_byte rgba (4 * (y * nat w + x) + 2) = rgba ! (4 * (y * nat w + x) + 2)"
      "src_byte rgba (4 * (y * nat w + x) + 1) = rgba ! (4 * (y * nat w + x) + 1)"
      "src_byte rgba (4 * (y * nat w + x)) = rgba ! (4 * (y * nat w + x))"
      "src_byte rgba (4 * (y * nat w + x) + 3) = rgba ! (4 * (y * nat w + x) + 3)"
      by (simp_all add: src_byte_in)
    moreover have "bmp ! (54 + 4 * (y * nat w + x)) = src_byte rgba (4 * (y * nat w + x) + 2) \<and>
            bmp ! (54 + 4 * (y * nat w + x) + 1) = src_byte rgba (4 * (y * nat w + x) + 1) \<and>
            bmp ! (54 + 4 * (y * nat w + x) + 2) = src_byte rgba (4 * (y * nat w + x)) \<and>
            bmp ! (54 + 4 * (y * nat w + x) + 3) = src_byte rgba (4 * (y * nat w + x) + 3)"
      using rs that unfolding rows_done_def by blast
    ultimately show ?thesis by simp
  qed
  show ?thesis
    using res lb b0 f2 f10 f22 g2 g10 s22 px by blast
qed

theorem createBMP_layout_witness:
  "\<exists>bmp. createBMP (replicate 16 0xFF) 2 2 = Inr bmp \<and> length bmp = 70 \<and>
     bmp ! 0 = 0x42 \<and> bmp ! 1 = 0x4D \<and>
     getUint32 bmp 2 True = Inr 70 \<and> getUint32 bmp 10 True = Inr 54 \<and>
     sint (word32_at bmp 22 True) = - 2 \<and> bmp ! 66 = 0xFF"
proof -
  have "(0::int) \<le> 2" "length (replicate 16 (0xFF :: u8)) = nat (4 * 2 * 2)" by simp_all
  from createBMP_layout[OF this(1) this(1) this(2)]
  obtain bmp where b: "createBMP (replicate 16 0xFF) 2 2 = Inr bmp" "length bmp = nat (54 + 4 * 2 * 2)"
     "bmp ! 0 = 0x42" "bmp ! 1 = 0x4D"
     "(54 + 4 * 2 * 2 < (2::int) ^ 32 \<longrightarrow> getUint32 bmp 2 True = Inr (nat (54 + 4 * 2 * 2)))"
     "getUint32 bmp 10 True = Inr 54"
     "((2::int) \<le> 2 ^ 31 \<longrightarrow> sint (word32_at bmp 22 True) = - 2)"
     "(\<forall>y<nat 2. \<forall>x<nat 2.
        bmp ! (54 + 4 * (y * nat 2 + x)) = replicate 16 0xFF ! (4 * (y * nat 2 + x) + 2) \<and>
        bmp ! (54 + 4 * (y * nat 2 + x) + 1) = replicate 16 0xFF ! (4 * (y * nat 2 + x) + 1) \<and>
        bmp ! (54 + 4 * (y * nat 2 + x) + 2) = replicate 16 0xFF ! (4 * (y * nat 2 + x)) \<and>
        bmp ! (54 + 4 * (y * nat 2 + x) + 3) = replicate 16 0xFF ! (4 * (y * nat 2 + x) + 3))"
    by blast
  have "(1::nat) < nat 2" by simp
  with b(8) have "bmp ! (54 + 4 * (1 * nat 2 + 1)) = replicate 16 (0xFF :: u8) ! (4 * (1 * nat 2 + 1) + 2)"
    by blast
  then have "bmp ! 66 = 0xFF" by simp
  with b show ?thesis by simp
qed

section \<open>Properties of the index calculator\<close>








definition class_colour :: "number \<Rightarrow> u8 list" where
  "class_colour val =
     (if js_gt val (Num 0.6) then [0, 128, 0, 200]
      else if js_gt val (Num 0.4) then [34, 139, 34, 180]
      else if js_gt val (Num 0.2) then [144, 238, 144, 150]
      else if js_gt val (Num 0) then [210, 180, 140, 120]
      else [65, 105, 225, if js_lt val (Num (- 0.1)) then 150 else 50])"

lemma length_class_colour [simp]: "length (class_colour val) = 4"
  by (simp add: class_colour_def)

lemma put_rgba_store: "put_rgba rgba idx r g b a = store rgba idx [r, g, b, a]"
  by (simp add: put_rgba_def numeral_3_eq_3)

lemma classify_step_eq:
  "classify_step ndvi i rgba = store rgba (i * 4) (class_colour (to_number (typed_get ndvi i)))"
  unfolding classify_step_def class_colour_def put_rgba_store Let_def by simp

lemma store_append:
  "length xs = off \<Longrightarrow> length bs \<le> length ys \<Longrightarrow>
   store (xs @ ys) off bs = xs @ bs @ drop (length bs) ys"
proof (induction bs arbitrary: xs ys off)
  case Nil
  then show ?case by simp
next
  case (Cons b bs)
  then obtain y ys' where ys: "ys = y # ys'" by (cases ys) auto
  have "store ((xs @ ys)[off := b]) (Suc off) bs = store ((xs @ [b]) @ ys') (Suc off) bs"
    using Cons.prems ys by (simp add: list_update_append)
  also have "\<dots> = (xs @ [b]) @ bs @ drop (length bs) ys'"
    using Cons.prems ys by (intro Cons.IH) simp_all
  finally show ?case using ys by simp
qed

lemma classify_fold:
  "k \<le> n \<Longrightarrow> length rg0 = n * 4 \<Longrightarrow>
   fold (classify_step ndvi) [0..<k] rg0 =
     concat (map (\<lambda>i. class_colour (to_number (typed_get ndvi i))) [0..<k]) @ drop (k * 4) rg0"
proof (induction k)
  case 0
  then show ?case by simp
next
  case (Suc k)
  let ?f = "\<lambda>i. class_colour (to_number (typed_get ndvi i))"
  have len: "length (concat (map ?f [0..<k])) = k * 4"
    by (induction k) simp_all
  have "4 \<le> length (drop (k * 4) rg0)" using Suc.prems by simp
  with len have "store (concat (map ?f [0..<k]) @ drop (k * 4) rg0) (k * 4) (?f k) =
     concat (map ?f [0..<k]) @ ?f k @ drop 4 (drop (k * 4) rg0)"
    using store_append[of "concat (map ?f [0..<k])" "k * 4" "?f k" "drop (k * 4) rg0"] by simp
  then show ?case using Suc by (simp add: classify_step_eq add.commute)
qed

lemma classify_loop_eq:
  "classify_loop ndvi n = concat (map (\<lambda>i. class_colour (to_number (typed_get ndvi i))) [0..<n])"
  using classify_fold[of n n "replicate (n * 4) 0" ndvi] by (simp add: classify_loop_def)


lemma length_classify_loop: "length (classify_loop ndvi n) = n * 4"
  unfolding classify_loop_eq by (induction n) simp_all










section \<open>Termination and bounds of the LZW decoder\<close>

declare fill_bits.simps [simp del]

definition bits_left :: "nat \<Rightarrow> lzw_state \<Rightarrow> nat" where
  "bits_left endPos st = 8 * (endPos - bytePos st) + bitsInBuffer st"

definition shift_in :: "u8 list \<Rightarrow> lzw_state \<Rightarrow> lzw_state" where
  "shift_in input st =
     st\<lparr>bitBuffer := push_bit 8 (bitBuffer st) OR ucast (undef0 (typed_get input (bytePos st))),
        bytePos := bytePos st + 1,
        bitsInBuffer := bitsInBuffer st + 8\<rparr>"

lemma fill_bits_more:
  "bitsInBuffer st < codeSize st \<Longrightarrow> bytePos st < endPos \<Longrightarrow>
   fill_bits input endPos st = fill_bits input endPos (shift_in input st)"
  by (subst fill_bits.simps) (simp add: shift_in_def)

lemma fill_bits_stop:
  "\<not> (bitsInBuffer st < codeSize st \<and> bytePos st < endPos) \<Longrightarrow> fill_bits input endPos st = st"
  by (subst fill_bits.simps) auto

lemma fill_bits_induct [consumes 0, case_names more stop]:
  assumes "\<And>st. bitsInBuffer st < codeSize st \<Longrightarrow> bytePos st < endPos \<Longrightarrow>
              P (shift_in input st) \<Longrightarrow> P st"
    and "\<And>st. \<not> (bitsInBuffer st < codeSize st \<and> bytePos st < endPos) \<Longrightarrow> P st"
  shows "P st"
proof (induction "endPos - bytePos st" arbitrary: st rule: less_induct)
  case less
  show ?case
  proof (cases "bitsInBuffer st < codeSize st \<and> bytePos st < endPos")
    case True
    then have "endPos - bytePos (shift_in input st) < endPos - bytePos st"
      by (auto simp add: shift_in_def)
    then have "P (shift_in input st)" by (rule less)
    with True show ?thesis using assms(1) by blast
  next
    case False
    then show ?thesis by (rule assms(2))
  qed
qed

lemma fill_bits_keeps:
  "lzw_output (fill_bits input endPos st) = lzw_output st \<and>
   dictionary (fill_bits input endPos st) = dictionary st \<and>
   nextCode (fill_bits input endPos st) = nextCode st \<and>
   codeSize (fill_bits input endPos st) = codeSize st \<and>
   oldCode (fill_bits input endPos st) = oldCode st \<and>
   bits_left endPos (fill_bits input endPos st) = bits_left endPos st"
proof (induction st rule: fill_bits_induct[where input = input and endPos = endPos])
  case (more st)
  then show ?case
    by (simp add: fill_bits_more) (simp add: shift_in_def bits_left_def)
next
  case (stop st)
  then show ?case by (simp add: fill_bits_stop)
qed

lemma fill_bits_done:
  "codeSize st \<le> bitsInBuffer (fill_bits input endPos st) \<or> endPos \<le> bytePos (fill_bits input endPos st)"
proof (induction st rule: fill_bits_induct[where input = input and endPos = endPos])
  case (more st)
  then show ?case
    by (simp add: fill_bits_more) (simp add: shift_in_def)
next
  case (stop st)
  then show ?case by (auto simp add: fill_bits_stop)
qed

subsection \<open>JavaScript arrays\<close>

lemma length_js_array_set: "length (js_array_set xs i v) = max (length xs) (Suc i)"
  by (auto simp: js_array_set_def)

lemma nth_js_array_set_same: "js_array_set xs i v ! i = Some v"
  by (auto simp: js_array_set_def nth_append)

lemma nth_js_array_set_other: "j \<noteq> i \<Longrightarrow> j < length xs \<Longrightarrow> js_array_set xs i v ! j = xs ! j"
  by (auto simp: js_array_set_def nth_append)

lemma nth_js_array_set_hole: "length xs \<le> j \<Longrightarrow> j < i \<Longrightarrow> js_array_set xs i v ! j = None"
  by (auto simp: js_array_set_def nth_append)

lemma js_array_set_end: "js_array_set xs (length xs) v = xs @ [Some v]"
  by (simp add: js_array_set_def)

lemma init_fold:
  "fold (\<lambda>i d. js_array_set d i [of_nat i :: u8]) [0..<k] d =
     map (\<lambda>i. Some [of_nat i]) [0..<k] @ drop k d"
proof (induction k)
  case 0
  then show ?case by simp
next
  case (Suc k)
  let ?m = "map (\<lambda>i. Some [of_nat i :: u8]) [0..<k]"
  have "js_array_set (?m @ drop k d) k [of_nat k] = ?m @ [Some [of_nat k]] @ drop (Suc k) d"
  proof (cases "k < length d")
    case True
    then have "drop k d = d ! k # drop (Suc k) d" by (simp add: Cons_nth_drop_Suc)
    then show ?thesis using True by (simp add: js_array_set_def list_update_append)
  next
    case False
    then show ?thesis by (simp add: js_array_set_def)
  qed
  with Suc show ?case by simp
qed

lemma init_dictionary_eq:
  "init_dictionary d = map (\<lambda>i. Some [of_nat i]) [0..<256] @ drop 256 d"
  by (simp add: init_dictionary_def init_fold)

lemma length_init_dictionary: "length (init_dictionary d) = max 256 (length d)"
  by (simp add: init_dictionary_eq)

lemma nth_init_dictionary: "i < 256 \<Longrightarrow> init_dictionary d ! i = Some [of_nat i]"
  by (simp add: init_dictionary_eq nth_append)

subsection \<open>The invariant of the decoder\<close>

definition lzw_inv :: "lzw_state \<Rightarrow> bool" where
  "lzw_inv st \<longleftrightarrow>
     9 \<le> codeSize st \<and> codeSize st \<le> 12 \<and>
     258 \<le> nextCode st \<and> nextCode st \<le> 4096 \<and>
     (length (dictionary st) = nextCode st \<or> nextCode st = 258 \<and> length (dictionary st) = 256) \<and>
     (\<forall>i < length (dictionary st). i \<noteq> 256 \<longrightarrow> i \<noteq> 257 \<longrightarrow> dictionary st ! i \<noteq> None) \<and>
     (oldCode st = - 1 \<or>
      0 \<le> oldCode st \<and> nat (oldCode st) < length (dictionary st) \<and>
      oldCode st \<noteq> 256 \<and> oldCode st \<noteq> 257)"

lemma lzw_inv_init: "lzw_inv (lzw_init offset)"
  by (simp add: lzw_inv_def lzw_init_def length_init_dictionary nth_init_dictionary)

lemma code_bound:
  assumes "n \<le> 12"
  shows "unat (x AND (push_bit (n mod 32) 1 - 1 :: 32 word)) < 2 ^ n"
proof -
  have "n mod 32 = n" using assms by simp
  moreover have "push_bit n 1 - 1 = (mask n :: 32 word)"
    by (simp add: mask_eq_exp_minus_1 push_bit_of_1)
  ultimately have "x AND (push_bit (n mod 32) 1 - 1) = take_bit n x"
    by (simp add: take_bit_eq_mask)
  then show ?thesis by (simp add: unsigned_take_bit_eq)
qed

lemma readCode_cases:
  obtains (short) "readCode input endPos st = (257, fill_bits input endPos st)"
  | (code) c where
      "readCode input endPos st =
         (c, (fill_bits input endPos st)\<lparr>bitsInBuffer := bitsInBuffer (fill_bits input endPos st) - codeSize st\<rparr>)"
      "codeSize st \<le> bitsInBuffer (fill_bits input endPos st)"
      "codeSize st \<le> 12 \<longrightarrow> c < 2 ^ codeSize st"
proof (cases "bitsInBuffer (fill_bits input endPos st) < codeSize st")
  case True
  then have "readCode input endPos st = (257, fill_bits input endPos st)"
    using fill_bits_keeps[of input endPos st] by (simp add: readCode_def Let_def)
  then show ?thesis by (rule short)
next
  case False
  let ?f = "fill_bits input endPos st"
  let ?st = "?f\<lparr>bitsInBuffer := bitsInBuffer ?f - codeSize st\<rparr>"
  let ?c = "unat (signed_drop_bit (bitsInBuffer ?st mod 32) (bitBuffer ?st)
                       AND (push_bit (codeSize ?st mod 32) 1 - 1))"
  have cs: "codeSize ?f = codeSize st" using fill_bits_keeps[of input endPos st] by simp
  have "readCode input endPos st = (?c, ?st)"
    using False cs by (simp add: readCode_def Let_def)
  moreover have "codeSize st \<le> bitsInBuffer ?f" using False by simp
  moreover have "codeSize st \<le> 12 \<longrightarrow> ?c < 2 ^ codeSize st"
    using code_bound[of "codeSize st"] cs by simp
  ultimately show ?thesis by (rule code)
qed

lemma lzw_emit_inv:
  assumes inv: "lzw_inv st"
    and code: "code < 4096" "code \<noteq> 256" "code \<noteq> 257"
    and known: "code < length (dictionary st) \<or> code = nextCode st \<and> 0 \<le> oldCode st"
  shows "\<exists>st'. lzw_emit st code entry = Continue st' \<and> lzw_inv st' \<and>
           bitsInBuffer st' = bitsInBuffer st \<and> bytePos st' = bytePos st"
proof (cases "0 \<le> oldCode st \<and> nextCode st < 4096")
  case False
  then have e: "lzw_emit st code entry = Continue (st\<lparr>lzw_output := lzw_output st @ entry, oldCode := int code\<rparr>)"
    by (auto simp: lzw_emit_def Let_def)
  have "code < length (dictionary st)"
  proof (rule ccontr)
    assume "\<not> code < length (dictionary st)"
    with known have "code = nextCode st" "0 \<le> oldCode st" by auto
    with False have "4096 \<le> code" by simp
    with code show False by simp
  qed
  then have "lzw_inv (st\<lparr>lzw_output := lzw_output st @ entry, oldCode := int code\<rparr>)"
    using inv code by (simp add: lzw_inv_def)
  with e show ?thesis by simp
next
  case True
  then have old: "0 \<le> oldCode st" "nat (oldCode st) < length (dictionary st)"
    "oldCode st \<noteq> 256" "oldCode st \<noteq> 257"
    using inv by (auto simp: lzw_inv_def)
  then have "dictionary st ! nat (oldCode st) \<noteq> None"
    using inv unfolding lzw_inv_def by (metis int_nat_eq of_nat_numeral)
  then obtain old where o: "js_array_get (dictionary st) (oldCode st) = Some old"
    using old by (auto simp: js_array_get_def)
  let ?d = "js_array_set (dictionary st) (nextCode st) (old @ [first_byte entry])"
  let ?cs = "if int (nextCode st + 1) \<ge> js_shl1 (codeSize st) \<and> codeSize st < 12
             then codeSize st + 1 else codeSize st"
  let ?st = "st\<lparr>lzw_output := lzw_output st @ entry, dictionary := ?d,
                nextCode := nextCode st + 1, codeSize := ?cs, oldCode := int code\<rparr>"
  have e: "lzw_emit st code entry = Continue ?st"
    using True o by (simp add: lzw_emit_def Let_def)
  have len: "length (dictionary st) \<le> nextCode st" using inv by (auto simp: lzw_inv_def)
  then have l': "length ?d = nextCode st + 1" by (simp add: length_js_array_set)
  have holes: "?d ! i \<noteq> None" if lt: "i < nextCode st + 1" and ne: "i \<noteq> 256" "i \<noteq> 257" for i
  proof -
    consider "i < length (dictionary st)" | "length (dictionary st) \<le> i" "i < nextCode st" | "i = nextCode st"
      using lt by linarith
    then show ?thesis
    proof cases
      case 1
      then have "?d ! i = dictionary st ! i" using len by (intro nth_js_array_set_other) auto
      then show ?thesis using inv 1 ne by (simp add: lzw_inv_def)
    next
      case 2
      then have "i = 256 \<or> i = 257" using inv by (auto simp: lzw_inv_def)
      then show ?thesis using ne by simp
    next
      case 3
      then show ?thesis by (simp add: nth_js_array_set_same)
    qed
  qed
  have "code < nextCode st + 1" using known len by auto
  then have "lzw_inv ?st"
    using inv True l' holes code unfolding lzw_inv_def by auto
  with e show ?thesis by simp
qed

lemma lzw_step_inv:
  assumes inv: "lzw_inv st"
  shows "(\<exists>st'. lzw_step input endPos st = Continue st' \<and> lzw_inv st' \<and>
            bits_left endPos st' + codeSize st = bits_left endPos st) \<or>
         (\<exists>st'. lzw_step input endPos st = Break st' \<and> lzw_inv st')"
proof (cases rule: readCode_cases[of input endPos st])
  case short
  have "lzw_inv (fill_bits input endPos st)"
    using inv fill_bits_keeps[of input endPos st] by (simp add: lzw_inv_def)
  with short show ?thesis by (simp add: lzw_step_def)
next
  case (code c)
  let ?f = "fill_bits input endPos st"
  let ?st = "?f\<lparr>bitsInBuffer := bitsInBuffer ?f - codeSize st\<rparr>"
  have keep: "dictionary ?st = dictionary st" "nextCode ?st = nextCode st"
    "codeSize ?st = codeSize st" "oldCode ?st = oldCode st"
    using fill_bits_keeps[of input endPos st] by simp_all
  have inv': "lzw_inv ?st" using inv keep by (simp add: lzw_inv_def)
  have bl: "bits_left endPos ?st + codeSize st = bits_left endPos st"
    using fill_bits_keeps[of input endPos st] code(2) by (simp add: bits_left_def)
  have c12: "c < 4096"
  proof -
    have "c < 2 ^ codeSize st" using code(3) inv by (simp add: lzw_inv_def)
    also have "(2::nat) ^ codeSize st \<le> 2 ^ 12"
      using inv by (intro power_increasing) (simp_all add: lzw_inv_def)
    finally show ?thesis by simp
  qed
  consider "c = 257" | "c = 256"
    | "c \<noteq> 257" "c \<noteq> 256" "c < length (dictionary st)"
    | "c \<noteq> 257" "c \<noteq> 256" "\<not> c < length (dictionary st)" "c = nextCode st \<and> 0 \<le> oldCode st"
    | "c \<noteq> 257" "c \<noteq> 256" "\<not> c < length (dictionary st)" "\<not> (c = nextCode st \<and> 0 \<le> oldCode st)"
    by blast
  then show ?thesis
  proof cases
    case 1
    then show ?thesis using code(1) inv' by (simp add: lzw_step_def)
  next
    case 2
    let ?r = "?st\<lparr>dictionary := init_dictionary (js_set_length (dictionary ?st) 258),
                    nextCode := 258, codeSize := 9, oldCode := - 1\<rparr>"
    have "lzw_step input endPos st = Continue ?r"
      using 2 code(1) by (simp add: lzw_step_def)
    moreover have "length (js_set_length (dictionary ?st) 258) = 258"
      by (simp add: js_set_length_def)
    then have "lzw_inv ?r"
      by (auto simp: lzw_inv_def length_init_dictionary init_dictionary_eq nth_append)
    moreover have "bits_left endPos ?r = bits_left endPos ?st" by (simp add: bits_left_def)
    ultimately show ?thesis using bl by simp
  next
    case 3
    then have "dictionary st ! c \<noteq> None" using inv by (simp add: lzw_inv_def)
    then obtain entry where en: "js_array_get (dictionary ?st) (int c) = Some entry"
      using 3 keep by (auto simp: js_array_get_def)
    from lzw_emit_inv[OF inv' c12 3(2) 3(1), of entry] 3 keep
    obtain st' where "lzw_emit ?st c entry = Continue st'" "lzw_inv st'"
      "bitsInBuffer st' = bitsInBuffer ?st" "bytePos st' = bytePos ?st"
      by auto
    moreover from this have "bits_left endPos st' = bits_left endPos ?st" by (simp add: bits_left_def)
    moreover have "lzw_step input endPos st = lzw_emit ?st c entry"
      using 3 code(1) keep en by (simp add: lzw_step_def)
    ultimately show ?thesis using bl by simp
  next
    case 4
    then have old: "0 \<le> oldCode st" "nat (oldCode st) < length (dictionary st)"
      "oldCode st \<noteq> 256" "oldCode st \<noteq> 257"
      using inv by (auto simp: lzw_inv_def)
    then have "dictionary st ! nat (oldCode st) \<noteq> None"
      using inv unfolding lzw_inv_def by (metis int_nat_eq of_nat_numeral)
    then obtain old where o: "js_array_get (dictionary ?st) (oldCode ?st) = Some old"
      using old keep by (auto simp: js_array_get_def)
    from lzw_emit_inv[OF inv' c12 4(2) 4(1), of "old @ [first_byte old]"] 4 keep
    obtain st' where "lzw_emit ?st c (old @ [first_byte old]) = Continue st'" "lzw_inv st'"
      "bitsInBuffer st' = bitsInBuffer ?st" "bytePos st' = bytePos ?st"
      by auto
    moreover from this have "bits_left endPos st' = bits_left endPos ?st" by (simp add: bits_left_def)
    moreover have "lzw_step input endPos st = lzw_emit ?st c (old @ [first_byte old])"
      using 4 code(1) keep o by (simp add: lzw_step_def)
    ultimately show ?thesis using bl by simp
  next
    case 5
    then have "lzw_step input endPos st = Break ?st"
      using code(1) keep by (auto simp add: lzw_step_def)
    then show ?thesis using inv' by simp
  qed
qed

lemma lzw_loop_total:
  "lzw_inv st \<Longrightarrow> \<exists>out. lzw_loop input endPos st = Some (Inr out)"
proof (induction "bits_left endPos st" arbitrary: st rule: less_induct)
  case less
  show ?case
  proof (cases "bytePos st < endPos \<or> codeSize st \<le> bitsInBuffer st")
    case False
    then show ?thesis by (subst lzw_loop.simps) simp
  next
    case True
    from lzw_step_inv[OF less.prems, of input endPos]
    show ?thesis
    proof (elim disjE exE conjE)
      fix st' assume s: "lzw_step input endPos st = Continue st'" and i: "lzw_inv st'"
        and b: "bits_left endPos st' + codeSize st = bits_left endPos st"
      have "0 < codeSize st" using less.prems by (simp add: lzw_inv_def)
      with b have "bits_left endPos st' < bits_left endPos st" by linarith
      from less.hyps[OF this i] obtain out where "lzw_loop input endPos st' = Some (Inr out)" ..
      then show ?thesis using True s by (subst lzw_loop.simps) simp
    next
      fix st' assume s: "lzw_step input endPos st = Break st'"
      then show ?thesis using True by (subst lzw_loop.simps) simp
    qed
  qed
qed

lemma lzw_reach_inv: "lzw_reach input endPos offset st \<Longrightarrow> lzw_inv st"
proof (induction rule: lzw_reach.induct)
  case start
  then show ?case by (rule lzw_inv_init)
next
  case (continue st st')
  then show ?case using lzw_step_inv[of st input endPos] by auto
next
  case (break st st')
  then show ?case using lzw_step_inv[of st input endPos] by auto
qed

text \<open>
  \<^bold>\<open>Claim C10.\<close> For every input buffer, offset and length, garbled code streams
  included, \<^verbatim>\<open>decompressLZW\<close> terminates and returns an output array without throwing;
  in every state of the run the code size lies between 9 and 12 and the dictionary has
  at most 4096 entries.
\<close>

theorem decompressLZW_total:
  "(\<exists>out. decompressLZW input offset len = Some (Inr out)) \<and>
   (\<forall>st. lzw_reach input (offset + len) offset st \<longrightarrow>
      9 \<le> codeSize st \<and> codeSize st \<le> 12 \<and> length (dictionary st) \<le> 4096)"
proof -
  have "\<exists>out. decompressLZW input offset len = Some (Inr out)"
    unfolding decompressLZW_def by (rule lzw_loop_total[OF lzw_inv_init])
  moreover have "9 \<le> codeSize st \<and> codeSize st \<le> 12 \<and> length (dictionary st) \<le> 4096"
    if "lzw_reach input (offset + len) offset st" for st
    using lzw_reach_inv[OF that] by (auto simp: lzw_inv_def)
  ultimately show ?thesis by blast
qed

theorem decompressLZW_total_witness:
  "(\<exists>out. decompressLZW [0x80, 0x10, 0x48, 0x50, 0x28, 0x28, 0x04] 0 7 = Some (Inr out)) \<and>
   9 \<le> codeSize (lzw_init 0) \<and> codeSize (lzw_init 0) \<le> 12 \<and>
   length (dictionary (lzw_init 0)) \<le> 4096"
  using decompressLZW_total[of "[0x80, 0x10, 0x48, 0x50, 0x28, 0x28, 0x04]" 0 7]
    lzw_reach.start[of "[0x80, 0x10, 0x48, 0x50, 0x28, 0x28, 0x04]" "0 + 7" 0]
  by blast

section \<open>Properties of the fallback scanner\<close>

definition sample16 :: "u8 list \<Rightarrow> nat \<Rightarrow> bool \<Rightarrow> nat \<Rightarrow> int" where
  "sample16 buffer start littleEndian i = sint (word16_at buffer (start + i * 2) littleEndian)"

definition plausible :: "int \<Rightarrow> bool" where
  "plausible s \<longleftrightarrow> - 1 \<le> real_of_int s / 10000 \<and> real_of_int s / 10000 \<le> 2"

lemma plausible_code [code]: "plausible s \<longleftrightarrow> - 10000 \<le> s \<and> s \<le> 20000"
  by (auto simp: plausible_def)

lemma reflectance_Num: "reflectance s = Num (real_of_int s / 10000)"
  by (simp add: reflectance_def)

lemma plausible_reflectance:
  "js_ge (reflectance s) (Num (- 1)) \<and> js_le (reflectance s) (Num 2) \<longleftrightarrow> plausible s"
  by (auto simp: reflectance_Num plausible_def)

lemma count_valid_eq:
  "(\<And>i. i \<in> set is \<Longrightarrow> start + i * 2 + 2 \<le> length buffer) \<Longrightarrow>
   count_valid buffer start le is v =
     Inr (v + length (filter (\<lambda>i. plausible (sample16 buffer start le i)) is))"
proof (induction "is" arbitrary: v)
  case Nil
  then show ?case by simp
next
  case (Cons i rest)
  have g: "getInt16 buffer (start + i * 2) le = Inr (sample16 buffer start le i)"
    using Cons.prems[of i] by (simp add: getInt16_def sample16_def)
  show ?case
    using Cons.IH Cons.prems
    by (simp add: g Let_def plausible_reflectance del: js_ge.simps js_le.simps)
qed

lemma fill_from_eq:
  "(\<And>i. i < n \<Longrightarrow> start + i * 2 + 2 \<le> length buffer) \<Longrightarrow> k \<le> n \<Longrightarrow> length result = n \<Longrightarrow>
   fill_from buffer start le [k..<n] result =
     Inr (take k result @ map (\<lambda>i. reflectance (sample16 buffer start le i)) [k..<n])"
proof (induction "n - k" arbitrary: k result)
  case 0
  then show ?case by simp
next
  case (Suc d)
  then have kn: "k < n" by simp
  then have up: "[k..<n] = k # [Suc k..<n]" by (simp add: upt_rec)
  have g: "getInt16 buffer (start + k * 2) le = Inr (sample16 buffer start le k)"
    using Suc.prems(1)[OF kn] by (simp add: getInt16_def sample16_def)
  have "fill_from buffer start le [Suc k..<n] (result[k := reflectance (sample16 buffer start le k)]) =
     Inr (take (Suc k) (result[k := reflectance (sample16 buffer start le k)]) @
          map (\<lambda>i. reflectance (sample16 buffer start le i)) [Suc k..<n])"
    using Suc by (intro Suc.hyps(1)) simp_all
  moreover have "take (Suc k) (result[k := x]) = take k result @ [x]" for x
    using kn Suc.prems(3) by (simp add: take_Suc_conv_app_nth)
  ultimately show ?case by (simp add: up g)
qed

definition fallback_accepts :: "u8 list \<Rightarrow> int \<Rightarrow> bool \<Rightarrow> int \<Rightarrow> bool" where
  "fallback_accepts buffer totalPixels littleEndian start \<longleftrightarrow>
     0 \<le> start \<and> start + 2 * totalPixels \<le> int (length buffer) \<and>
     80 < length (filter (\<lambda>i. plausible (sample16 buffer (nat start) littleEndian i))
                    [0..<nat (min 100 totalPixels)])"

definition raster_at :: "u8 list \<Rightarrow> int \<Rightarrow> bool \<Rightarrow> int \<Rightarrow> number list" where
  "raster_at buffer totalPixels littleEndian start =
     map (\<lambda>i. Num (real_of_int (sample16 buffer (nat start) littleEndian i) / 10000))
       [0..<nat totalPixels]"

lemma try_starts_eq:
  assumes "0 \<le> totalPixels" "length result = nat totalPixels"
  shows "try_starts buffer totalPixels le starts result =
     Inr (case find (fallback_accepts buffer totalPixels le) starts of
            None \<Rightarrow> result
          | Some start \<Rightarrow> raster_at buffer totalPixels le start)"
proof (induction starts)
  case Nil
  then show ?case by simp
next
  case (Cons start rest)
  show ?case
  proof (cases "0 \<le> start \<and> start + totalPixels * 2 \<le> int (length buffer)")
    case False
    then have "\<not> fallback_accepts buffer totalPixels le start"
      by (auto simp: fallback_accepts_def)
    with False Cons show ?thesis by (auto simp: Let_def)
  next
    case True
    have inb: "nat start + i * 2 + 2 \<le> length buffer" if "i < nat totalPixels" for i
      using True that by linarith
    have "i < nat totalPixels" if "i \<in> set [0..<nat (min 100 totalPixels)]" for i
      using that by auto
    then have cv: "count_valid buffer (nat start) le [0..<nat (min 100 totalPixels)] 0 =
        Inr (length (filter (\<lambda>i. plausible (sample16 buffer (nat start) le i)) [0..<nat (min 100 totalPixels)]))"
      using count_valid_eq[of "[0..<nat (min 100 totalPixels)]" "nat start" buffer le 0] inb by simp
    have ff: "fill_from buffer (nat start) le [0..<nat totalPixels] result =
        Inr (raster_at buffer totalPixels le start)"
      using fill_from_eq[of "nat totalPixels" "nat start" buffer 0 result le] inb assms(2)
      by (simp add: raster_at_def reflectance_Num)
    show ?thesis
    proof (cases "fallback_accepts buffer totalPixels le start")
      case acc: True
      then show ?thesis using True cv ff by (simp add: Let_def fallback_accepts_def)
    next
      case rej: False
      then have "\<not> 80 < length (filter (\<lambda>i. plausible (sample16 buffer (nat start) le i)) [0..<nat (min 100 totalPixels)])"
        using True by (simp add: fallback_accepts_def mult.commute)
      then show ?thesis using True cv rej Cons by (simp add: Let_def)
    qed
  qed
qed

lemma extractFallback_eq:
  assumes "0 \<le> width * height"
  shows "extractFallback buffer width height le =
     Inr (case find (fallback_accepts buffer (width * height) le)
                 [8, 256, 512, int (length buffer) - width * height * 2] of
            None \<Rightarrow> replicate (nat (width * height)) (Num 0)
          | Some start \<Rightarrow> raster_at buffer (width * height) le start)"
proof -
  have "\<not> width * height < 0" using assms by simp
  then have "extractFallback buffer width height le =
     try_starts buffer (width * height) le [8, 256, 512, int (length buffer) - width * height * 2]
       (replicate (nat (width * height)) (Num 0))"
    by (simp add: extractFallback_def Let_def del: try_starts.simps)
  also have "\<dots> = Inr (case find (fallback_accepts buffer (width * height) le)
                 [8, 256, 512, int (length buffer) - width * height * 2] of
            None \<Rightarrow> replicate (nat (width * height)) (Num 0)
          | Some start \<Rightarrow> raster_at buffer (width * height) le start)"
    by (rule try_starts_eq[OF assms]) simp
  finally show ?thesis .
qed

text \<open>
  \<^bold>\<open>Claim C7\<close> (as amended). The scanner accepts a candidate offset if and only if the
  offset is not negative, a raster of \<open>2 * width * height\<close> bytes at that offset fits in
  the buffer, and more than 80 of the first \<open>min 100 (width * height)\<close> 16-bit samples
  at the offset, divided by 10000, lie in \<open>[-1, 2]\<close>. The first accepted candidate in
  the order 8, 256, 512, end of buffer minus raster size gives the whole raster; when
  no candidate is accepted the result is a raster of zeros of the declared dimensions,
  and nothing is thrown.
\<close>

theorem extractFallback_scan:
  assumes "0 \<le> width * height"
  shows "extractFallback buffer width height littleEndian =
     Inr (case find (fallback_accepts buffer (width * height) littleEndian)
                 [8, 256, 512, int (length buffer) - width * height * 2] of
            None \<Rightarrow> replicate (nat (width * height)) (Num 0)
          | Some start \<Rightarrow> raster_at buffer (width * height) littleEndian start)"
  using assms by (rule extractFallback_eq)

lemma ex1_accepts: "find (fallback_accepts (replicate 8 0 @ concat (replicate 81 [0x10, 0x27])) (81 * 1) True)
    [8, 256, 512, int (length (replicate 8 (0::u8) @ concat (replicate 81 [0x10, 0x27]))) - 81 * 1 * 2] = Some 8"
  by code_simp

lemma ex1_raster: "raster_at (replicate 8 0 @ concat (replicate 81 [0x10, 0x27])) (81 * 1) True 8 = replicate 81 (Num 1)"
  by code_simp

theorem extractFallback_scan_witness:
  "extractFallback (replicate 8 0 @ concat (replicate 81 [0x10, 0x27])) 81 1 True = Inr (replicate 81 (Num 1))"
proof -
  have "(0::int) \<le> 81 * 1" by simp
  from extractFallback_scan[OF this, of "replicate 8 0 @ concat (replicate 81 [0x10, 0x27])" True]
  show ?thesis by (simp only: ex1_accepts ex1_raster option.case)
qed

lemma ex2_count: "length (filter (\<lambda>i. plausible (sample16 (replicate 168 0 @ concat (replicate 20 [0xFF, 0x7F])) 8 True i)) [0..<100]) = 80"
  by code_simp

lemma ex2_accepts: "find (fallback_accepts (replicate 168 0 @ concat (replicate 20 [0xFF, 0x7F])) (100 * 1) True)
    [8, 256, 512, int (length (replicate 168 (0::u8) @ concat (replicate 20 [0xFF, 0x7F]))) - 100 * 1 * 2] = None"
  by code_simp

lemma ex2_sample: "raster_at (replicate 168 0 @ concat (replicate 20 [0xFF, 0x7F])) (100 * 1) True 8 ! 80 = Num (32767 / 10000)"
  by code_simp

text \<open>
  The claim as the specification states it accepts a candidate with at least 80
  plausible samples. In this buffer of 208 bytes the only candidate that fits is offset
  8; exactly 80 of its first 100 samples are plausible (the last 20 are 32767); the
  scanner rejects it and returns zeros.
\<close>

theorem extractFallback_threshold_counterexample:
  "length (filter (\<lambda>i. plausible (sample16 (replicate 168 0 @ concat (replicate 20 [0xFF, 0x7F])) 8 True i))
             [0..<100]) = 80 \<and>
   extractFallback (replicate 168 0 @ concat (replicate 20 [0xFF, 0x7F])) 100 1 True =
     Inr (replicate 100 (Num 0)) \<and>
   extractFallback (replicate 168 0 @ concat (replicate 20 [0xFF, 0x7F])) 100 1 True \<noteq>
     Inr (raster_at (replicate 168 0 @ concat (replicate 20 [0xFF, 0x7F])) (100 * 1) True 8)"
proof -
  have "(0::int) \<le> 100 * 1" by simp
  from extractFallback_eq[OF this, of "replicate 168 0 @ concat (replicate 20 [0xFF, 0x7F])" True]
  have r: "extractFallback (replicate 168 0 @ concat (replicate 20 [0xFF, 0x7F])) 100 1 True =
     Inr (replicate 100 (Num 0))"
    by (simp only: ex2_accepts option.case) simp
  have "replicate 100 (Num 0) ! 80 \<noteq> raster_at (replicate 168 0 @ concat (replicate 20 [0xFF, 0x7F])) (100 * 1) True 8 ! 80"
    unfolding ex2_sample by simp
  then have "replicate 100 (Num 0) \<noteq> raster_at (replicate 168 0 @ concat (replicate 20 [0xFF, 0x7F])) (100 * 1) True 8"
    by metis
  with r ex2_count show ?thesis by simp
qed

section \<open>Properties of the TIFF decode\<close>

subsection \<open>The directory never fails\<close>

lemma ebind_Inr_ex: "m = Inr v \<Longrightarrow> \<exists>r. f v = Inr r \<Longrightarrow> \<exists>r. ebind m f = Inr r"
  by simp

lemma push_values_ok: "\<exists>vs. push_values buffer le ptr cnt j acc = Inr vs"
proof (induction buffer le ptr cnt j acc rule: push_values.induct)
  case (1 buffer le ptr cnt j acc)
  show ?case
  proof (cases "j < cnt \<and> ptr + j * 4 + 4 \<le> length buffer")
    case True
    then have g: "getUint32 buffer (ptr + j * 4) le = Inr (unat (word32_at buffer (ptr + j * 4) le))"
      by (simp add: getUint32_def)
    from 1[OF True] obtain vs where
      "push_values buffer le ptr cnt (j + 1) (acc @ [unat (word32_at buffer (ptr + j * 4) le)]) = Inr vs"
      by blast
    with True g show ?thesis by (subst push_values.simps) simp
  next
    case False
    then show ?thesis by (subst push_values.simps) auto
  qed
qed

lemma getUint8_ok: "off + 1 \<le> length buffer \<Longrightarrow> getUint8 buffer off = Inr (unat (buffer ! off))"
  by (simp add: getUint8_def)

lemma getUint16_ok:
  "off + 2 \<le> length buffer \<Longrightarrow> getUint16 buffer off le = Inr (unat (word16_at buffer off le))"
  by (simp add: getUint16_def)

lemma getInt16_ok:
  "off + 2 \<le> length buffer \<Longrightarrow> getInt16 buffer off le = Inr (sint (word16_at buffer off le))"
  by (simp add: getInt16_def)

lemma getUint32_ok:
  "off + 4 \<le> length buffer \<Longrightarrow> getUint32 buffer off le = Inr (unat (word32_at buffer off le))"
  by (simp add: getUint32_def)

lemma read_entry_ok:
  assumes "entryOffset + 12 \<le> length buffer"
  shows "\<exists>ifd'. read_entry buffer le entryOffset ifd = Inr ifd'"
proof -
  note g = getUint16_ok getUint32_ok
  obtain a where a: "push_values buffer le (unat (word32_at buffer (entryOffset + 8) le))
      (unat (word32_at buffer (entryOffset + 4) le)) 0 (stripOffsets ifd) = Inr a"
    using push_values_ok by blast
  obtain b where b: "push_values buffer le (unat (word32_at buffer (entryOffset + 8) le))
      (unat (word32_at buffer (entryOffset + 4) le)) 0 (stripByteCounts ifd) = Inr b"
    using push_values_ok by blast
  show ?thesis
    unfolding read_entry_def using assms a b by (simp add: g Let_def del: push_values.simps)
qed

lemma read_entries_ok: "\<exists>ifd'. read_entries buffer le ifdOffset is ifd = Inr ifd'"
proof (induction "is" arbitrary: ifd)
  case Nil
  then show ?case by simp
next
  case (Cons i rest)
  show ?case
  proof (cases "ifdOffset + 2 + i * 12 + 12 \<le> length buffer")
    case True
    from read_entry_ok[OF this] obtain ifd' where
      "read_entry buffer le (ifdOffset + 2 + i * 12) ifd = Inr ifd'" by blast
    with True Cons.IH[of ifd'] show ?thesis by (simp add: Let_def)
  next
    case False
    then show ?thesis by (simp add: Let_def)
  qed
qed

definition tiff_little_endian :: "u8 list \<Rightarrow> bool" where
  "tiff_little_endian buffer \<longleftrightarrow> buffer ! 0 = 0x49 \<and> buffer ! 1 = 0x49"

definition tiff_ifd_offset :: "u8 list \<Rightarrow> nat" where
  "tiff_ifd_offset buffer = unat (word32_at buffer 4 (tiff_little_endian buffer))"

lemma unat_u8_73: "unat (b :: u8) = 73 \<longleftrightarrow> b = 73"
  by (simp add: word_unat_eq_iff)

lemma unat_u8_77: "unat (b :: u8) = 77 \<longleftrightarrow> b = 77"
  by (simp add: word_unat_eq_iff)

lemma read_ifd_cases:
  "read_ifd buffer height =
     (if length buffer < 8 then Inl BufferTooSmall
      else if buffer ! 0 \<noteq> 0x49 \<and> buffer ! 0 \<noteq> 0x4D then Inl InvalidTiffHeader
      else if tiff_ifd_offset buffer + 2 > length buffer then Inl InvalidIfdOffset
      else Inr (tiff_little_endian buffer,
                projr (read_entries buffer (tiff_little_endian buffer) (tiff_ifd_offset buffer)
                  [0..<unat (word16_at buffer (tiff_ifd_offset buffer) (tiff_little_endian buffer))]
                  \<lparr>compression = 1, stripOffsets = [], stripByteCounts = [], rowsPerStrip = height\<rparr>)))"
proof -
  let ?le = "tiff_little_endian buffer"
  let ?off = "tiff_ifd_offset buffer"
  let ?init = "\<lparr>compression = 1, stripOffsets = [], stripByteCounts = [], rowsPerStrip = height\<rparr>"
  obtain ifd where e: "read_entries buffer ?le ?off [0..<unat (word16_at buffer ?off ?le)] ?init = Inr ifd"
    using read_entries_ok by blast
  show ?thesis
    using e unfolding read_ifd_def tiff_little_endian_def tiff_ifd_offset_def
    by (auto simp add: getUint8_ok getUint16_ok getUint32_ok Let_def unat_u8_73 unat_u8_77)
qed

subsection \<open>The raster while it is written\<close>

definition pad_raster :: "nat \<Rightarrow> number list \<Rightarrow> number list" where
  "pad_raster n vals = take n vals @ replicate (n - length vals) (Num 0)"

definition raster_state :: "nat \<Rightarrow> number list \<Rightarrow> nat \<times> number list" where
  "raster_state n written = (length written, pad_raster n written)"

lemma length_pad_raster [simp]: "length (pad_raster n vals) = n"
  by (simp add: pad_raster_def)

lemma pad_raster_take: "pad_raster n (take n vals) = pad_raster n vals"
  by (simp add: pad_raster_def min_def)

lemma pad_raster_write:
  "length written < n \<Longrightarrow> (pad_raster n written)[length written := v] = pad_raster n (written @ [v])"
proof -
  assume l: "length written < n"
  then obtain k where k: "n - length written = Suc k" by (cases "n - length written") auto
  then have "n - length (written @ [v]) = k" by simp
  then show ?thesis using l k by (simp add: pad_raster_def list_update_append)
qed

lemma take_take_append: "take n (take n xs @ ys) = take n (xs @ ys)"
  by (cases "n \<le> length xs") simp_all

lemma take_full: "length xs = n \<Longrightarrow> take n (xs @ ys) = xs"
  by simp

definition strip_samples :: "u8 list \<Rightarrow> bool \<Rightarrow> number list" where
  "strip_samples stripData littleEndian =
     map (\<lambda>i. reflectance (sint (word16_at stripData (i * 2) littleEndian)))
       [0..<length stripData div 2]"

lemma write_samples_raster:
  assumes "\<forall>i\<in>set is. i * 2 + 2 \<le> length data" and "length written \<le> n"
  shows "write_samples data le (int n) is (raster_state n written) =
     Inr (raster_state n (take n (written @
            map (\<lambda>i. reflectance (sint (word16_at data (i * 2) le))) is)))"
  using assms
proof (induction "is" arbitrary: written)
  case Nil
  then show ?case by simp
next
  case (Cons i rest)
  show ?case
  proof (cases "length written < n")
    case True
    let ?v = "reflectance (sint (word16_at data (i * 2) le))"
    have g: "getInt16 data (i * 2) le = Inr (sint (word16_at data (i * 2) le))"
      using Cons.prems(1) by (simp add: getInt16_ok)
    have st: "(length written + 1, (pad_raster n written)[length written := ?v]) =
        raster_state n (written @ [?v])"
      using True by (simp add: raster_state_def pad_raster_write)
    have "write_samples data le (int n) rest (raster_state n (written @ [?v])) =
        Inr (raster_state n (take n ((written @ [?v]) @
            map (\<lambda>i. reflectance (sint (word16_at data (i * 2) le))) rest)))"
      using Cons.prems True by (intro Cons.IH) simp_all
    then show ?thesis
      using True g st by (simp add: raster_state_def)
  next
    case False
    with Cons.prems have "length written = n" by simp
    then show ?thesis by (simp add: raster_state_def)
  qed
qed

lemma write_samples_strip:
  assumes "length written \<le> n"
  shows "write_samples data le (int n) [0..<length data div 2] (raster_state n written) =
     Inr (raster_state n (take n (written @ strip_samples data le)))"
  unfolding strip_samples_def by (rule write_samples_raster) (use assms in auto)

lemma raw_samples_raster:
  assumes "length written \<le> n"
  shows "raw_samples buffer le (int n) offset is (raster_state n written) =
     Inr (raster_state n (take n (written @
            map (\<lambda>i. reflectance (sint (word16_at buffer (offset + i * 2) le)))
              (filter (\<lambda>i. offset + i * 2 + 2 \<le> length buffer) is))))"
  using assms
proof (induction "is" arbitrary: written)
  case Nil
  then show ?case by simp
next
  case (Cons i rest)
  show ?case
  proof (cases "length written < n")
    case True
    note lt = True
    show ?thesis
    proof (cases "offset + i * 2 + 2 \<le> length buffer")
      case True
      let ?v = "reflectance (sint (word16_at buffer (offset + i * 2) le))"
      have g: "getInt16 buffer (offset + i * 2) le = Inr (sint (word16_at buffer (offset + i * 2) le))"
        using True by (simp add: getInt16_ok)
      have st: "(length written + 1, (pad_raster n written)[length written := ?v]) =
          raster_state n (written @ [?v])"
        using lt by (simp add: raster_state_def pad_raster_write)
      have "raw_samples buffer le (int n) offset rest (raster_state n (written @ [?v])) =
          Inr (raster_state n (take n ((written @ [?v]) @
            map (\<lambda>i. reflectance (sint (word16_at buffer (offset + i * 2) le)))
              (filter (\<lambda>i. offset + i * 2 + 2 \<le> length buffer) rest))))"
        using lt by (intro Cons.IH) simp
      then show ?thesis
        using lt True g st by (simp add: raster_state_def Let_def)
    next
      case False
      then show ?thesis
        using lt Cons.IH[OF Cons.prems] by (simp add: raster_state_def Let_def)
    qed
  next
    case False
    with Cons.prems have "length written = n" by simp
    then show ?thesis by (simp add: raster_state_def)
  qed
qed

lemma zero_fill_raster:
  assumes "length written \<le> n"
  shows "zero_fill (int n) is (raster_state n written) =
     raster_state n (take n (written @ replicate (length is) (Num 0)))"
  using assms
proof (induction "is" arbitrary: written)
  case Nil
  then show ?case by simp
next
  case (Cons i rest)
  show ?case
  proof (cases "length written < n")
    case True
    have st: "(length written + 1, (pad_raster n written)[length written := Num 0]) =
        raster_state n (written @ [Num 0])"
      using True by (simp add: raster_state_def pad_raster_write)
    have "zero_fill (int n) rest (raster_state n (written @ [Num 0])) =
        raster_state n (take n ((written @ [Num 0]) @ replicate (length rest) (Num 0)))"
      using True by (intro Cons.IH) simp
    then show ?thesis
      using True st by (simp add: raster_state_def replicate_app_Cons_same)
  next
    case False
    with Cons.prems have "length written = n" by simp
    then show ?thesis by (simp add: raster_state_def)
  qed
qed

subsection \<open>The values of the strips\<close>

definition lzw_bytes :: "u8 list \<Rightarrow> nat \<Rightarrow> nat \<Rightarrow> u8 list" where
  "lzw_bytes bytes offset len =
     (case decompressLZW bytes offset len of Some (Inr out) \<Rightarrow> out | _ \<Rightarrow> [])"

lemma decompressLZW_bytes: "decompressLZW bytes offset len = Some (Inr (lzw_bytes bytes offset len))"
proof -
  obtain out where "decompressLZW bytes offset len = Some (Inr out)"
    unfolding decompressLZW_def using lzw_loop_total[OF lzw_inv_init] by blast
  then show ?thesis by (simp add: lzw_bytes_def)
qed

definition lzw_strip_values :: "u8 list \<Rightarrow> bool \<Rightarrow> ifd_info \<Rightarrow> nat \<Rightarrow> number list" where
  "lzw_strip_values bytes littleEndian ifd s =
     strip_samples
       (case typed_get (stripByteCounts ifd) s of
          None \<Rightarrow> []
        | Some byteCount \<Rightarrow> lzw_bytes bytes (stripOffsets ifd ! s) byteCount)
       littleEndian"

definition raw_strip_values :: "u8 list \<Rightarrow> bool \<Rightarrow> int \<Rightarrow> ifd_info \<Rightarrow> nat \<Rightarrow> number list" where
  "raw_strip_values buffer littleEndian totalPixels ifd s =
     (let offset = stripOffsets ifd ! s;
          byteCount = (case typed_get (stripByteCounts ifd) s of
                         None \<Rightarrow> totalPixels * 2
                       | Some c \<Rightarrow> if c = 0 then totalPixels * 2 else int c)
      in map (\<lambda>i. reflectance (sint (word16_at buffer (offset + i * 2) littleEndian)))
           (filter (\<lambda>i. offset + i * 2 + 2 \<le> length buffer) [0..<nat (byteCount div 2)]))"

definition deflate_strip_values ::
    "(u8 list \<Rightarrow> u8 list option) \<Rightarrow> u8 list \<Rightarrow> bool \<Rightarrow> int \<Rightarrow> ifd_info \<Rightarrow> nat \<Rightarrow> number list" where
  "deflate_strip_values inflate bytes littleEndian width ifd s =
     (case inflate (js_slice bytes (stripOffsets ifd ! s)
                      (case typed_get (stripByteCounts ifd) s of
                         None \<Rightarrow> 0
                       | Some byteCount \<Rightarrow> stripOffsets ifd ! s + byteCount)) of
        None \<Rightarrow> replicate (nat \<lceil>real_of_int (rowsPerStrip ifd * width)\<rceil>) (Num 0)
      | Some decompressed \<Rightarrow> strip_samples decompressed littleEndian)"

lemma rbind_Some_Inr [simp]: "rbind (Some (Inr v)) f = f v"
  by (simp add: rbind_def)

lemma rbind_Some_Inl [simp]: "rbind (Some (Inl e)) f = Some (Inl e)"
  by (simp add: rbind_def)

lemma lzw_strips_raster:
  assumes "length written \<le> n"
  shows "lzw_strips bytes le (int n) ifd ss (raster_state n written) =
     Some (Inr (raster_state n (take n (written @ concat (map (lzw_strip_values bytes le ifd) ss)))))"
  using assms
proof (induction ss arbitrary: written)
  case Nil
  then show ?case by simp
next
  case (Cons s rest)
  show ?case
  proof (cases "length written < n")
    case True
    let ?data = "case typed_get (stripByteCounts ifd) s of None \<Rightarrow> []
                 | Some byteCount \<Rightarrow> lzw_bytes bytes (stripOffsets ifd ! s) byteCount"
    have d: "(case typed_get (stripByteCounts ifd) s of None \<Rightarrow> Some (Inr [])
              | Some byteCount \<Rightarrow> decompressLZW bytes (stripOffsets ifd ! s) byteCount) =
             Some (Inr ?data)"
      by (simp add: decompressLZW_bytes split: option.splits)
    have w: "write_samples ?data le (int n) [0..<length ?data div 2] (raster_state n written) =
        Inr (raster_state n (take n (written @ lzw_strip_values bytes le ifd s)))"
      using Cons.prems unfolding lzw_strip_values_def by (rule write_samples_strip)
    have "lzw_strips bytes le (int n) ifd rest
            (raster_state n (take n (written @ lzw_strip_values bytes le ifd s))) =
        Some (Inr (raster_state n (take n (take n (written @ lzw_strip_values bytes le ifd s) @
            concat (map (lzw_strip_values bytes le ifd) rest)))))"
      by (intro Cons.IH) simp
    then have "lzw_strips bytes le (int n) ifd (s # rest) (raster_state n written) =
        Some (Inr (raster_state n (take n (take n (written @ lzw_strip_values bytes le ifd s) @
            concat (map (lzw_strip_values bytes le ifd) rest)))))"
      using True w unfolding raster_state_def[of n written]
      by (simp only: lzw_strips.simps d of_nat_less_iff if_True rbind_Some_Inr Let_def)
    then show ?thesis by (simp only: take_take_append append_assoc concat.simps list.map)
  next
    case False
    with Cons.prems have "length written = n" by simp
    then show ?thesis by (simp add: raster_state_def)
  qed
qed

lemma raw_strips_raster:
  assumes "length written \<le> n"
  shows "raw_strips buffer le (int n) ifd ss (raster_state n written) =
     Inr (raster_state n (take n (written @ concat (map (raw_strip_values buffer le (int n) ifd) ss))))"
  using assms
proof (induction ss arbitrary: written)
  case Nil
  then show ?case by simp
next
  case (Cons s rest)
  show ?case
  proof (cases "length written < n")
    case True
    let ?off = "stripOffsets ifd ! s"
    let ?bc = "case typed_get (stripByteCounts ifd) s of None \<Rightarrow> int n * 2
               | Some c \<Rightarrow> if c = 0 then int n * 2 else int c"
    have w: "raw_samples buffer le (int n) ?off [0..<nat (?bc div 2)] (raster_state n written) =
        Inr (raster_state n (take n (written @ raw_strip_values buffer le (int n) ifd s)))"
      using raw_samples_raster[OF Cons.prems, of buffer le ?off "[0..<nat (?bc div 2)]"]
      by (simp add: raw_strip_values_def Let_def)
    have "raw_strips buffer le (int n) ifd rest
            (raster_state n (take n (written @ raw_strip_values buffer le (int n) ifd s))) =
        Inr (raster_state n (take n (take n (written @ raw_strip_values buffer le (int n) ifd s) @
            concat (map (raw_strip_values buffer le (int n) ifd) rest))))"
      by (intro Cons.IH) simp
    then have "raw_strips buffer le (int n) ifd (s # rest) (raster_state n written) =
        Inr (raster_state n (take n (take n (written @ raw_strip_values buffer le (int n) ifd s) @
            concat (map (raw_strip_values buffer le (int n) ifd) rest))))"
      using True w unfolding raster_state_def[of n written]
      by (simp only: raw_strips.simps of_nat_less_iff if_True ebind_Inr Let_def)
    then show ?thesis by (simp only: take_take_append append_assoc concat.simps list.map)
  next
    case False
    with Cons.prems have "length written = n" by simp
    then show ?thesis by (simp add: raster_state_def)
  qed
qed

lemma deflate_strips_raster:
  assumes "length written \<le> n"
  shows "deflate_strips inflate bytes le (int n) width ifd ss (raster_state n written) =
     raster_state n (take n (written @
        concat (map (deflate_strip_values inflate bytes le width ifd) ss)))"
  using assms
proof (induction ss arbitrary: written)
  case Nil
  then show ?case by simp
next
  case (Cons s rest)
  show ?case
  proof (cases "length written < n")
    case True
    let ?cd = "js_slice bytes (stripOffsets ifd ! s)
                 (case typed_get (stripByteCounts ifd) s of None \<Rightarrow> 0
                  | Some byteCount \<Rightarrow> stripOffsets ifd ! s + byteCount)"
    let ?k = "nat \<lceil>real_of_int (rowsPerStrip ifd * width)\<rceil>"
    have step: "(case inflate ?cd of
             None \<Rightarrow> zero_fill (int n) [0..<?k] (raster_state n written)
           | Some decompressed \<Rightarrow>
               (case write_samples decompressed le (int n) [0..<length decompressed div 2]
                       (raster_state n written) of
                  Inl e \<Rightarrow> zero_fill (int n) [0..<?k] (raster_state n written)
                | Inr st \<Rightarrow> st)) =
          raster_state n (take n (written @ deflate_strip_values inflate bytes le width ifd s))"
      using Cons.prems
      by (simp add: deflate_strip_values_def zero_fill_raster write_samples_strip split: option.splits)
    have "deflate_strips inflate bytes le (int n) width ifd rest
            (raster_state n (take n (written @ deflate_strip_values inflate bytes le width ifd s))) =
        raster_state n (take n (take n (written @ deflate_strip_values inflate bytes le width ifd s) @
            concat (map (deflate_strip_values inflate bytes le width ifd) rest)))"
      by (intro Cons.IH) simp
    then have "deflate_strips inflate bytes le (int n) width ifd (s # rest) (raster_state n written) =
        raster_state n (take n (take n (written @ deflate_strip_values inflate bytes le width ifd s) @
            concat (map (deflate_strip_values inflate bytes le width ifd) rest)))"
      using True step unfolding raster_state_def[of n written]
      by (simp only: deflate_strips.simps of_nat_less_iff if_True Let_def)
    then show ?thesis by (simp only: take_take_append append_assoc concat.simps list.map)
  next
    case False
    with Cons.prems have "length written = n" by simp
    then show ?thesis by (simp add: raster_state_def)
  qed
qed

subsection \<open>The decode as a whole\<close>

definition fallback_raster :: "u8 list \<Rightarrow> int \<Rightarrow> int \<Rightarrow> bool \<Rightarrow> number list" where
  "fallback_raster buffer width height littleEndian =
     (case find (fallback_accepts buffer (width * height) littleEndian)
                 [8, 256, 512, int (length buffer) - width * height * 2] of
        None \<Rightarrow> replicate (nat (width * height)) (Num 0)
      | Some start \<Rightarrow> raster_at buffer (width * height) littleEndian start)"

lemma length_fallback_raster: "length (fallback_raster buffer width height le) = nat (width * height)"
  by (simp add: fallback_raster_def raster_at_def split: option.splits)

definition deflate_values ::
    "(u8 list \<Rightarrow> u8 list option) \<Rightarrow> u8 list \<Rightarrow> bool \<Rightarrow> int \<Rightarrow> ifd_info \<Rightarrow> number list" where
  "deflate_values inflate buffer littleEndian width ifd =
     concat (map (deflate_strip_values inflate buffer littleEndian width ifd)
               [0..<length (stripOffsets ifd)])"

lemma raster_state_Nil: "raster_state n [] = (0, replicate n (Num 0))"
  by (simp add: raster_state_def pad_raster_def)

lemma raster_state_take: "raster_state n (take n vals) = (min n (length vals), pad_raster n vals)"
  by (simp add: raster_state_def pad_raster_take min.commute)

lemma decode_strips_eq:
  assumes "0 \<le> width * height"
  shows "decode_strips inflate buffer le width height ifd =
     (if compression ifd = 5
      then Some (Inr (Codec, pad_raster (nat (width * height))
             (concat (map (lzw_strip_values buffer le ifd) [0..<length (stripOffsets ifd)]))))
      else if compression ifd = 1
      then Some (Inr (Codec, pad_raster (nat (width * height))
             (concat (map (raw_strip_values buffer le (width * height) ifd)
                        [0..<length (stripOffsets ifd)]))))
      else if compression ifd = 8 \<or> compression ifd = 32946
      then (if 2 * min (nat (width * height)) (length (deflate_values inflate buffer le width ifd))
                 < nat (width * height)
            then Some (Inr (Fallback, fallback_raster buffer width height le))
            else Some (Inr (Codec, pad_raster (nat (width * height))
                   (deflate_values inflate buffer le width ifd))))
      else Some (Inr (Fallback, fallback_raster buffer width height le)))"
proof -
  let ?n = "nat (width * height)"
  let ?ss = "[0..<length (stripOffsets ifd)]"
  have t: "int ?n = width * height" "\<not> width * height < 0" using assms by simp_all
  have fb: "extractFallback buffer width height le = Inr (fallback_raster buffer width height le)"
    unfolding fallback_raster_def by (rule extractFallback_eq[OF assms])
  have lzw: "lzw_strips buffer le (width * height) ifd ?ss (0, replicate ?n (Num 0)) =
      Some (Inr (min ?n (length (concat (map (lzw_strip_values buffer le ifd) ?ss))),
                 pad_raster ?n (concat (map (lzw_strip_values buffer le ifd) ?ss))))"
    using lzw_strips_raster[of "[]" ?n buffer le ifd ?ss] assms
    by (simp add: raster_state_Nil raster_state_take)
  have raw: "raw_strips buffer le (width * height) ifd ?ss (0, replicate ?n (Num 0)) =
      Inr (min ?n (length (concat (map (raw_strip_values buffer le (width * height) ifd) ?ss))),
                 pad_raster ?n (concat (map (raw_strip_values buffer le (width * height) ifd) ?ss)))"
    using raw_strips_raster[of "[]" ?n buffer le ifd ?ss] assms
    by (simp add: raster_state_Nil raster_state_take)
  have dfl: "deflate_strips inflate buffer le (width * height) width ifd ?ss (0, replicate ?n (Num 0)) =
      (min ?n (length (deflate_values inflate buffer le width ifd)),
       pad_raster ?n (deflate_values inflate buffer le width ifd))"
    using deflate_strips_raster[of "[]" ?n inflate buffer le width ifd ?ss] assms
    by (simp add: raster_state_Nil raster_state_take deflate_values_def)
  have half: "real k < real_of_int (width * height) * 0.5 \<longleftrightarrow> 2 * k < ?n" for k
  proof -
    have "real_of_int (width * height) = real ?n" using assms by simp
    then have "real k < real_of_int (width * height) * 0.5 \<longleftrightarrow> real (2 * k) < real ?n"
      by (simp add: mult.commute)
    then show ?thesis by (simp only: of_nat_less_iff)
  qed
  show ?thesis
    unfolding decode_strips_def Let_def
    by (simp only: t lzw raw dfl fb half if_False rbind_Some_Inr prod.case split: if_splits)
qed

lemma parseTiff_traced_eq:
  "parseTiff_traced inflate buffer width height =
     (case read_ifd buffer height of
        Inl e \<Rightarrow> Some (Inl e)
      | Inr (le, ifd) \<Rightarrow> decode_strips inflate buffer le width height ifd)"
  by (simp add: parseTiff_traced_def rbind_def split: sum.splits)

lemma decode_strips_ok:
  assumes "0 \<le> width * height"
  shows "\<exists>path r. decode_strips inflate buffer le width height ifd = Some (Inr (path, r)) \<and>
           length r = nat (width * height)"
  unfolding decode_strips_eq[OF assms] by (simp add: length_fallback_raster)

lemma parseTiff_eq:
  "parseTiffInt16ToFloat32 inflate buffer width height =
     (case parseTiff_traced inflate buffer width height of
        None \<Rightarrow> None
      | Some (Inl e) \<Rightarrow> Some (Inl e)
      | Some (Inr (path, r)) \<Rightarrow> Some (Inr r))"
  by (simp add: parseTiffInt16ToFloat32_def rbind_def split: option.splits sum.splits)


text \<open>
  \<^bold>\<open>Claim C5\<close> (as amended). For non-negative dimensions the parse raises a fatal error
  exactly when the buffer is shorter than 8 bytes, or its first byte is neither \<open>I\<close>
  (0x49) nor \<open>M\<close> (0x4D), or the directory offset read at byte 4, plus the two bytes
  of the entry count, runs past the end of the buffer; a fatal error carries no raster.
  The second byte is not checked: the byte order is little-endian when both bytes are
  \<open>I\<close> and big-endian for every other accepted header, \<open>MM\<close> among them. In every other
  case the parse returns a raster.
\<close>

theorem parseTiff_fatal_errors:
  assumes "0 \<le> width * height"
  shows
    "(length buffer < 8 \<longrightarrow>
        parseTiffInt16ToFloat32 inflate buffer width height = Some (Inl BufferTooSmall)) \<and>
     (8 \<le> length buffer \<and> buffer ! 0 \<noteq> 0x49 \<and> buffer ! 0 \<noteq> 0x4D \<longrightarrow>
        parseTiffInt16ToFloat32 inflate buffer width height = Some (Inl InvalidTiffHeader)) \<and>
     (8 \<le> length buffer \<and> (buffer ! 0 = 0x49 \<or> buffer ! 0 = 0x4D) \<and>
      length buffer < tiff_ifd_offset buffer + 2 \<longrightarrow>
        parseTiffInt16ToFloat32 inflate buffer width height = Some (Inl InvalidIfdOffset)) \<and>
     (8 \<le> length buffer \<and> (buffer ! 0 = 0x49 \<or> buffer ! 0 = 0x4D) \<and>
      tiff_ifd_offset buffer + 2 \<le> length buffer \<longrightarrow>
        (\<exists>r. parseTiffInt16ToFloat32 inflate buffer width height = Some (Inr r)) \<and>
        (\<exists>ifd. read_ifd buffer height = Inr (buffer ! 0 = 0x49 \<and> buffer ! 1 = 0x49, ifd)))"
proof -
  have ok: "(\<exists>r. parseTiffInt16ToFloat32 inflate buffer width height = Some (Inr r)) \<and>
        (\<exists>ifd. read_ifd buffer height = Inr (buffer ! 0 = 0x49 \<and> buffer ! 1 = 0x49, ifd))"
    if "8 \<le> length buffer" "buffer ! 0 = 0x49 \<or> buffer ! 0 = 0x4D"
       "tiff_ifd_offset buffer + 2 \<le> length buffer"
  proof -
    from that have "\<exists>ifd. read_ifd buffer height = Inr (tiff_little_endian buffer, ifd)"
      by (subst read_ifd_cases) auto
    then obtain ifd where i: "read_ifd buffer height = Inr (tiff_little_endian buffer, ifd)" ..
    from decode_strips_ok[OF assms, of inflate buffer "tiff_little_endian buffer" ifd]
    obtain path r where "decode_strips inflate buffer (tiff_little_endian buffer) width height ifd =
        Some (Inr (path, r))" by blast
    then have "parseTiffInt16ToFloat32 inflate buffer width height = Some (Inr r)"
      using i by (simp add: parseTiff_eq parseTiff_traced_eq)
    then show ?thesis using i by (auto simp: tiff_little_endian_def)
  qed
  have e1: "parseTiffInt16ToFloat32 inflate buffer width height = Some (Inl BufferTooSmall)"
    if "length buffer < 8"
    using that by (subst parseTiff_eq, subst parseTiff_traced_eq, subst read_ifd_cases) simp
  have e2: "parseTiffInt16ToFloat32 inflate buffer width height = Some (Inl InvalidTiffHeader)"
    if "8 \<le> length buffer" "buffer ! 0 \<noteq> 0x49" "buffer ! 0 \<noteq> 0x4D"
    using that by (subst parseTiff_eq, subst parseTiff_traced_eq, subst read_ifd_cases) simp
  have e3: "parseTiffInt16ToFloat32 inflate buffer width height = Some (Inl InvalidIfdOffset)"
    if "8 \<le> length buffer" "buffer ! 0 = 0x49 \<or> buffer ! 0 = 0x4D"
       "length buffer < tiff_ifd_offset buffer + 2"
    using that by (subst parseTiff_eq, subst parseTiff_traced_eq, subst read_ifd_cases) auto
  show ?thesis using ok e1 e2 e3 by blast
qed

lemma ex5_offset: "tiff_ifd_offset [0x4D, 0x4D, 0, 0x2A, 0, 0, 0, 8, 0, 0] = 8"
  by code_simp

theorem parseTiff_fatal_errors_witness:
  "parseTiffInt16ToFloat32 (\<lambda>bs. None) [0x4D] 1 1 = Some (Inl BufferTooSmall) \<and>
   (\<exists>r. parseTiffInt16ToFloat32 (\<lambda>bs. None) [0x4D, 0x4D, 0, 0x2A, 0, 0, 0, 8, 0, 0] 1 1 = Some (Inr r)) \<and>
   (\<exists>ifd. read_ifd [0x4D, 0x4D, 0, 0x2A, 0, 0, 0, 8, 0, 0] 1 = Inr (False, ifd))"
proof -
  have h: "(0::int) \<le> 1 * 1" by simp
  from parseTiff_fatal_errors[OF h, of "[0x4D]" "\<lambda>bs. None"]
  have a: "parseTiffInt16ToFloat32 (\<lambda>bs. None) [0x4D] 1 1 = Some (Inl BufferTooSmall)" by simp
  from parseTiff_fatal_errors[OF h, of "[0x4D, 0x4D, 0, 0x2A, 0, 0, 0, 8, 0, 0]" "\<lambda>bs. None"]
  have "(\<exists>r. parseTiffInt16ToFloat32 (\<lambda>bs. None) [0x4D, 0x4D, 0, 0x2A, 0, 0, 0, 8, 0, 0] 1 1 = Some (Inr r)) \<and>
   (\<exists>ifd. read_ifd [0x4D, 0x4D, 0, 0x2A, 0, 0, 0, 8, 0, 0] 1 = Inr (False, ifd))"
    by (simp add: ex5_offset)
  with a show ?thesis by simp
qed

text \<open>
  The claim as the specification states it has a malformed-header error for first two
  bytes that are neither \<open>II\<close> nor \<open>MM\<close>. A buffer that starts with \<open>I\<close> and a zero byte
  is read big-endian and decoded to a raster.
\<close>

theorem parseTiff_header_counterexample:
  "parseTiffInt16ToFloat32 (\<lambda>bs. None) [0x49, 0x00, 0x2A, 0x00, 0, 0, 0, 8, 0, 0] 1 1 =
     Some (Inr [Num 0])"
  by code_simp

lemma parseTiff_traced_Inr:
  assumes "parseTiff_traced inflate buffer width height = Some (Inr (path, r))"
    and "read_ifd buffer height = Inr (le, ifd)"
  shows "0 \<le> width * height" and
    "decode_strips inflate buffer le width height ifd = Some (Inr (path, r))"
proof -
  show d: "decode_strips inflate buffer le width height ifd = Some (Inr (path, r))"
    using assms by (simp add: parseTiff_traced_eq)
  show "0 \<le> width * height"
  proof (rule ccontr)
    assume "\<not> 0 \<le> width * height"
    then have "decode_strips inflate buffer le width height ifd = Some (Inl RangeError)"
      by (simp add: decode_strips_def Let_def)
    with d show False by simp
  qed
qed





lemma ex7_inflate:
  "(\<lambda>bs. if bs = [1, 2, 0, 0xFD, 0xFF, 0x10, 0x27] then Some [0x10, 0x27] else None)
     (js_slice ([0x49, 0x49, 0x2A, 0x00, 8, 0, 0, 0, 3, 0,
        3, 1, 3, 0, 1, 0, 0, 0, 8, 0, 0, 0,
        0x11, 1, 4, 0, 1, 0, 0, 0, 46, 0, 0, 0,
        0x17, 1, 4, 0, 1, 0, 0, 0, 7, 0, 0, 0] @ [1, 2, 0, 0xFD, 0xFF, 0x10, 0x27]) 46 (46 + 7)) =
   Some [0x10 :: u8, 0x27]"
  by code_simp


text \<open>
  \<^bold>\<open>Claim C8\<close> (as amended). The raster comes from the fallback scanner exactly when the
  compression code is none of 1, 5, 8, 32946, or the code is 8 or 32946 and the Deflate
  pass wrote fewer than half of the \<open>width * height\<close> pixels (the zeros written for a
  failed strip count as written). An LZW pass never falls back.
\<close>

theorem fallback_invoked_iff:
  assumes "parseTiff_traced inflate buffer width height = Some (Inr (path, r))"
    and "read_ifd buffer height = Inr (littleEndian, ifd)"
  shows "path = Fallback \<longleftrightarrow>
     (compression ifd \<noteq> 1 \<and> compression ifd \<noteq> 5 \<and> compression ifd \<noteq> 8 \<and>
      compression ifd \<noteq> 32946) \<or>
     ((compression ifd = 8 \<or> compression ifd = 32946) \<and>
      2 * min (nat (width * height)) (length (deflate_values inflate buffer littleEndian width ifd))
        < nat (width * height))"
proof -
  note d = parseTiff_traced_Inr[OF assms]
  show ?thesis
    using d(2) unfolding decode_strips_eq[OF d(1)]
    by (auto split: if_splits)
qed

lemma ex8_parse:
  "parseTiff_traced (\<lambda>bs. None)
     [0x49, 0x49, 0x2A, 0x00, 8, 0, 0, 0, 1, 0, 3, 1, 3, 0, 1, 0, 0, 0, 77, 0, 0, 0] 1 1 =
   Some (Inr (Fallback, [Num 0]))"
  by code_simp

lemma ex8_ifd:
  "read_ifd [0x49, 0x49, 0x2A, 0x00, 8, 0, 0, 0, 1, 0, 3, 1, 3, 0, 1, 0, 0, 0, 77, 0, 0, 0] 1 =
   Inr (True, \<lparr>compression = 77, stripOffsets = [], stripByteCounts = [], rowsPerStrip = 1\<rparr>)"
  by code_simp

theorem fallback_invoked_iff_witness:
  "Fallback = Fallback \<longleftrightarrow>
     (compression \<lparr>compression = 77, stripOffsets = [], stripByteCounts = [], rowsPerStrip = 1\<rparr> \<noteq> 1 \<and>
      compression \<lparr>compression = 77, stripOffsets = [], stripByteCounts = [], rowsPerStrip = 1\<rparr> \<noteq> 5 \<and>
      compression \<lparr>compression = 77, stripOffsets = [], stripByteCounts = [], rowsPerStrip = 1\<rparr> \<noteq> 8 \<and>
      compression \<lparr>compression = 77, stripOffsets = [], stripByteCounts = [], rowsPerStrip = 1\<rparr> \<noteq> 32946) \<or>
     ((compression \<lparr>compression = 77, stripOffsets = [], stripByteCounts = [], rowsPerStrip = 1\<rparr> = 8 \<or>
       compression \<lparr>compression = 77, stripOffsets = [], stripByteCounts = [], rowsPerStrip = 1\<rparr> = 32946) \<and>
      2 * min (nat (1 * 1))
            (length (deflate_values (\<lambda>bs. None)
               [0x49, 0x49, 0x2A, 0x00, 8, 0, 0, 0, 1, 0, 3, 1, 3, 0, 1, 0, 0, 0, 77, 0, 0, 0] True 1
               \<lparr>compression = 77, stripOffsets = [], stripByteCounts = [], rowsPerStrip = 1\<rparr>))
        < nat (1 * 1))"
  by (rule fallback_invoked_iff[OF ex8_parse ex8_ifd])

text \<open>
  The claim as the specification states it sends an LZW pass that recovered fewer than
  half of the pixels to the scanner. A buffer with compression 5 and no strip recovers
  none of its one pixel, and the raster is the codec's.
\<close>

theorem lzw_no_fallback_counterexample:
  "parseTiff_traced (\<lambda>bs. None)
     [0x49, 0x49, 0x2A, 0x00, 8, 0, 0, 0, 1, 0, 3, 1, 3, 0, 1, 0, 0, 0, 5, 0, 0, 0] 1 1 =
     Some (Inr (Codec, [Num 0])) \<and>
   read_ifd [0x49, 0x49, 0x2A, 0x00, 8, 0, 0, 0, 1, 0, 3, 1, 3, 0, 1, 0, 0, 0, 5, 0, 0, 0] 1 =
     Inr (True, \<lparr>compression = 5, stripOffsets = [], stripByteCounts = [], rowsPerStrip = 1\<rparr>)"
  by code_simp

end
